theory Spec2Isabelle
  imports Complex_Main "HOL-Library.Word"
begin

section \<open>Machine types and errors\<close>

text \<open>
  \<^verbatim>\<open>int64_t\<close> and \<^verbatim>\<open>size_t\<close> are 64-bit words; \<^verbatim>\<open>int\<close> and \<^verbatim>\<open>unsigned\<close> are 32-bit
  words. A signed comparison of the source is \<open><s\<close> or \<open>\<le>s\<close>, an unsigned one is
  \<open><\<close> or \<open>\<le>\<close>. An implicit conversion is \<open>ucast\<close> (from an unsigned type, or a
  narrowing that keeps the low bits) or \<open>scast\<close> (widening a signed value).
\<close>

type_synonym int64_t = "64 word"
type_synonym size_t = "64 word"
type_synonym cint = "32 word"
type_synonym cunsigned = "32 word"

text \<open>
  The errors the engine itself raises. \<^verbatim>\<open>std::runtime_error\<close> carries its message.
  \<^verbatim>\<open>AT_ASSERT\<close> is a macro of c10 whose definition is not part of the sources at
  hand; a failed assertion is the error \<open>assertion_failed\<close>, and whether a false
  condition raises at all is the parameter \<open>asserts_checked\<close> of the functions below.
\<close>

datatype error = runtime_error string | assertion_failed string

section \<open>The inter-op pool (Parallel\_threadpool\_native.cpp)\<close>

text \<open>
  The file-level atomic \<^verbatim>\<open>num_interop_threads\<close> and the two function-level statics
  (the \<^verbatim>\<open>pool\<close> of \<^verbatim>\<open>createC10ThreadPool\<close> and the \<^verbatim>\<open>pool\<close> of \<^verbatim>\<open>get_pool\<close>)
  form the state. A static that is still \<open>None\<close> has not been initialised. A pool is
  represented by its size and the work handed to it; \<^verbatim>\<open>PTThreadPool\<close> is not part
  of the sources at hand, and following the specification (a pool's size is fixed
  at construction and never changes) a pool constructed with \<open>n\<close> has size \<open>n\<close>.
\<close>

record 'f interop =
  num_interop_threads :: cint
  c10_pool :: "size_t option"
  pool :: "size_t option"
  submitted :: "'f list"

definition interop_init :: "'f interop" where
  "interop_init =
     \<lparr>num_interop_threads = - 1, c10_pool = None, pool = None, submitted = []\<rparr>"

text \<open>
  \<^verbatim>\<open>createC10ThreadPool(device_id, pool_size, create_new)\<close>. The static pool is built
  on the first call only; the three assertions run on every call. In
  \<^verbatim>\<open>pool->size() == pool_size\<close> the \<^verbatim>\<open>int\<close> is converted to \<^verbatim>\<open>size_t\<close>.
  An error leaves the static initialised, so the state is returned on both paths.
\<close>

definition createC10ThreadPool ::
  "bool \<Rightarrow> cunsigned \<Rightarrow> cint \<Rightarrow> cint \<Rightarrow> bool \<Rightarrow> 'f interop \<Rightarrow> (error + size_t) \<times> 'f interop"
where
  "createC10ThreadPool asserts_checked hardware_concurrency device_id pool_size create_new s =
     (let s1 = (case c10_pool s of
                  None \<Rightarrow> s\<lparr>c10_pool :=
                             Some (if 0 <s pool_size then ucast pool_size
                                   else ucast hardware_concurrency)\<rparr>
                | Some _ \<Rightarrow> s);
          p = the (c10_pool s1)
      in if asserts_checked \<and> device_id \<noteq> 0 then
           (Inl (assertion_failed ''device_id == 0''), s1)
         else if asserts_checked \<and> create_new then
           (Inl (assertion_failed ''!create_new''), s1)
         else if asserts_checked \<and> p \<noteq> scast pool_size then
           (Inl (assertion_failed ''pool->size() == pool_size''), s1)
         else (Inr p, s1))"

text \<open>
  \<^verbatim>\<open>get_pool()\<close>: the initialiser of the static runs until it has completed once; it
  exchanges \<open>-2\<close> into \<^verbatim>\<open>num_interop_threads\<close> and passes the old value as the pool
  size to the creator registered under \<^verbatim>\<open>"C10"\<close>. An initialiser that throws leaves
  the static uninitialised (it is run again by the next call), but the exchange has
  happened.
\<close>

definition get_pool ::
  "bool \<Rightarrow> cunsigned \<Rightarrow> 'f interop \<Rightarrow> (error + size_t) \<times> 'f interop"
where
  "get_pool asserts_checked hardware_concurrency s =
     (case pool s of
        Some p \<Rightarrow> (Inr p, s)
      | None \<Rightarrow>
          (let old = num_interop_threads s;
               s1 = s\<lparr>num_interop_threads := - 2\<rparr>
           in case createC10ThreadPool asserts_checked hardware_concurrency 0 old False s1 of
                (Inl e, s2) \<Rightarrow> (Inl e, s2)
              | (Inr p, s2) \<Rightarrow> (Inr p, s2\<lparr>pool := Some p\<rparr>)))"

text \<open>
  \<^verbatim>\<open>set_num_interop_threads(size_t nthreads)\<close>. The compare-and-exchange takes an
  \<^verbatim>\<open>int\<close>, so \<^verbatim>\<open>nthreads\<close> is narrowed to 32 bits.
\<close>

definition set_num_interop_threads ::
  "size_t \<Rightarrow> 'f interop \<Rightarrow> (error + unit) \<times> 'f interop"
where
  "set_num_interop_threads nthreads s =
     (if nthreads = 0 then (Inr (), s)
      else if num_interop_threads s = - 1 then
        (Inr (), s\<lparr>num_interop_threads := ucast nthreads\<rparr>)
      else
        (Inl (runtime_error
           ''Error: cannot set number of interop threads after parallel work has started''), s))"

definition get_num_interop_threads ::
  "bool \<Rightarrow> cunsigned \<Rightarrow> 'f interop \<Rightarrow> (error + size_t) \<times> 'f interop"
where
  "get_num_interop_threads asserts_checked hardware_concurrency s =
     (let nthreads = num_interop_threads s
      in if 0 <s nthreads then (Inr (scast nthreads), s)
         else if nthreads = - 1 then (Inr (ucast hardware_concurrency), s)
         else get_pool asserts_checked hardware_concurrency s)"

definition launch ::
  "bool \<Rightarrow> cunsigned \<Rightarrow> 'f \<Rightarrow> 'f interop \<Rightarrow> (error + unit) \<times> 'f interop"
where
  "launch asserts_checked hardware_concurrency func s =
     (case get_pool asserts_checked hardware_concurrency s of
        (Inl e, s1) \<Rightarrow> (Inl e, s1)
      | (Inr p, s1) \<Rightarrow> (Inr (), s1\<lparr>submitted := submitted s1 @ [func]\<rparr>))"

text \<open>The three logical states of the specification, read off the atomic integer.\<close>

definition Unset :: "'f interop \<Rightarrow> bool" where
  "Unset s \<longleftrightarrow> num_interop_threads s = - 1"

definition UserRequested :: "nat \<Rightarrow> 'f interop \<Rightarrow> bool" where
  "UserRequested n s \<longleftrightarrow> 0 < n \<and> sint (num_interop_threads s) = int n"

definition Initialized :: "'f interop \<Rightarrow> bool" where
  "Initialized s \<longleftrightarrow> num_interop_threads s = - 2"

section \<open>The intra-op primitives (Parallel\_native.h)\<close>

text \<open>
  The parameters \<^verbatim>\<open>begin\<close> and \<^verbatim>\<open>end\<close> of the source are written \<open>lo\<close> and \<open>hi\<close>,
  since both words are keywords of Isabelle.
\<close>

subsection \<open>What the header takes from elsewhere\<close>

text \<open>
  Modelled from the spec: \<^verbatim>\<open>divup\<close> is declared in ATen/Parallel.h, which is not part
  of the sources at hand. The specification writes its result as
  \<open>ceil((end-begin)/thread_count)\<close> and \<open>ceil((end-begin)/chunk_size)\<close>: the quotient
  rounded up. (\<open>div\<close> on \<open>int\<close> rounds down, so the negated quotient of the negated
  numerator rounds up.)
\<close>

definition divup :: "int \<Rightarrow> int \<Rightarrow> int" where
  "divup x y = - ((- x) div y)"

text \<open>\<^verbatim>\<open>std::max\<close> on \<^verbatim>\<open>size_t\<close> and \<^verbatim>\<open>std::min\<close> on \<^verbatim>\<open>int64_t\<close>.\<close>

definition std_max :: "size_t \<Rightarrow> size_t \<Rightarrow> size_t" where
  "std_max a b = (if a < b then b else a)"

definition std_min :: "int64_t \<Rightarrow> int64_t \<Rightarrow> int64_t" where
  "std_min a b = (if b <s a then b else a)"

text \<open>
  Modelled from the spec: the thread-local \<open>RegionContext\<close> and the three setters
  that the header declares (\<^verbatim>\<open>_set_in_parallel_region\<close>, \<^verbatim>\<open>_set_thread_num\<close>,
  \<^verbatim>\<open>_unset_thread_num\<close>) are defined in a file that is not part of the sources at
  hand. The specification gives the context as a flag, false by default, and an
  optional thread number, unset by default.
\<close>

record RegionContext =
  in_parallel_region :: bool
  thread_num :: "size_t option"

definition set_in_parallel_region :: "bool \<Rightarrow> RegionContext \<Rightarrow> RegionContext" where
  "set_in_parallel_region v ctx = ctx\<lparr>in_parallel_region := v\<rparr>"

definition set_thread_num :: "size_t \<Rightarrow> RegionContext \<Rightarrow> RegionContext" where
  "set_thread_num n ctx = ctx\<lparr>thread_num := Some n\<rparr>"

definition unset_thread_num :: "RegionContext \<Rightarrow> RegionContext" where
  "unset_thread_num ctx = ctx\<lparr>thread_num := None\<rparr>"

subsection \<open>Chunk arithmetic\<close>

text \<open>
  The four expressions of the parallel branch, with the conversions of the source:
  \<^verbatim>\<open>end - begin\<close> is a signed difference, \<^verbatim>\<open>(size_t)grain_size\<close> and the products
  and sums with \<^verbatim>\<open>chunk_size\<close> are unsigned 64-bit arithmetic, and the casts back to
  \<^verbatim>\<open>int64_t\<close> keep the bits. \<open>num_threads\<close> is the value of \<^verbatim>\<open>get_num_threads()\<close>.
\<close>

definition chunk_size :: "nat \<Rightarrow> int64_t \<Rightarrow> int64_t \<Rightarrow> int64_t \<Rightarrow> size_t" where
  "chunk_size num_threads lo hi grain_size =
     std_max grain_size (word_of_int (divup (sint (hi - lo)) (int num_threads)))"

definition num_tasks :: "int64_t \<Rightarrow> int64_t \<Rightarrow> size_t \<Rightarrow> size_t" where
  "num_tasks lo hi cs = word_of_int (divup (sint (hi - lo)) (uint cs))"

definition local_start :: "int64_t \<Rightarrow> size_t \<Rightarrow> size_t \<Rightarrow> int64_t" where
  "local_start lo cs task_id = lo + task_id * cs"

definition local_end :: "int64_t \<Rightarrow> size_t \<Rightarrow> int64_t \<Rightarrow> int64_t" where
  "local_end hi cs ls = std_min hi (cs + ls)"

subsection \<open>The state of one call\<close>

text \<open>
  The parallel branch runs on several threads, so it is a transition system: a
  state, one atomic step for each actor, and a schedule that says who moves next.
  The program counter of the \<^verbatim>\<open>task\<close> lambda has one point before each of its
  effects on shared or thread-local state.
\<close>

datatype 'e task_pc =
    Enter
  | Body
  | Catch 'e
  | Store 'e
  | Leave
  | Return

record frame =
  fr_task_id :: int64_t
  fr_start :: int64_t
  fr_end :: int64_t

text \<open>
  Modelled from the spec: the intra-op \<open>ThreadPool\<close> and \<open>Future\<close> are not part of
  the sources at hand. \<^verbatim>\<open>run\<close> enqueues a closure, which some worker thread of the
  fixed set takes later, in no promised order, and runs to its end; a future is
  pending until \<^verbatim>\<open>markCompleted\<close>, and \<^verbatim>\<open>wait\<close> blocks until then. The closure
  submitted for a task is kept under its task id, with the values it captured by
  copy.
\<close>

datatype 'e closure =
    Unsubmitted
  | Queued frame
  | Running nat frame "'e task_pc"
  | Finished

datatype future = Pending | Completed

datatype 'e caller_pc =
    Sequential
  | Dispatch size_t
  | Task0 "'e task_pc"
  | Wait size_t
  | Joined

text \<open>
  Every invocation of the body is logged with the thread that made it (\<open>None\<close> is
  the calling thread), the context of that thread at the call, the task id (\<open>None\<close>
  for the direct call of the sequential branch) and the bounds passed. \<open>claimed\<close>
  logs the calls of \<^verbatim>\<open>err_flag.test_and_set()\<close> in the order they took effect.
\<close>

record call =
  call_thread :: "nat option"
  call_ctx :: RegionContext
  call_task :: "int64_t option"
  call_start :: int64_t
  call_end :: int64_t

record ('e, 'r) engine =
  caller_pc :: "'e caller_pc"
  caller_ctx :: RegionContext
  worker_ctx :: "RegionContext list"
  closures :: "size_t \<Rightarrow> 'e closure"
  futures :: "size_t \<Rightarrow> future option"
  err_flag :: bool
  eptr :: "'e option"
  results :: "'r list"
  calls :: "call list"
  claimed :: "int64_t list"

text \<open>The locals of the parallel branch that the closures capture by reference.\<close>

record ('e, 'v, 'r) locals =
  l_begin :: int64_t
  l_end :: int64_t
  l_chunk_size :: size_t
  l_num_tasks :: size_t
  l_body :: "int64_t \<Rightarrow> int64_t \<Rightarrow> 'e + 'v"
  l_store :: "int64_t \<Rightarrow> 'v \<Rightarrow> 'r list \<Rightarrow> 'r list"

definition before_call :: "RegionContext \<Rightarrow> RegionContext list \<Rightarrow> ('e, 'r) engine" where
  "before_call ctx wctx =
     \<lparr>caller_pc = Sequential, caller_ctx = ctx, worker_ctx = wctx,
      closures = (\<lambda>_. Unsubmitted), futures = (\<lambda>_. None),
      err_flag = False, eptr = None, results = [], calls = [], claimed = []\<rparr>"

subsection \<open>The task lambda\<close>

text \<open>
  One step of \<^verbatim>\<open>task(task_id, local_start, local_end)\<close> on a thread whose context
  is \<open>ctx\<close>. \<open>l_body\<close> is the statement inside \<^verbatim>\<open>try\<close>: the call of \<^verbatim>\<open>f\<close>, and for
  \<^verbatim>\<open>parallel_reduce\<close> the assignment of its value to \<^verbatim>\<open>results_data[task_id]\<close>
  (\<open>l_store\<close>). \<open>Inl e\<close> is the exception \<open>e\<close> thrown by \<^verbatim>\<open>f\<close>.
\<close>

definition task_step ::
  "('e, 'v, 'r) locals \<Rightarrow> nat option \<Rightarrow> frame \<Rightarrow> 'e task_pc \<Rightarrow> RegionContext \<Rightarrow>
   ('e, 'r) engine \<Rightarrow> 'e task_pc \<times> RegionContext \<times> ('e, 'r) engine"
where
  "task_step L who fr pc ctx s =
     (case pc of
        Enter \<Rightarrow>
          (Body, set_in_parallel_region True (set_thread_num (fr_task_id fr) ctx), s)
      | Body \<Rightarrow>
          (let s1 = s\<lparr>calls := calls s @
                      [\<lparr>call_thread = who, call_ctx = ctx, call_task = Some (fr_task_id fr),
                        call_start = fr_start fr, call_end = fr_end fr\<rparr>]\<rparr>
           in case l_body L (fr_start fr) (fr_end fr) of
                Inr v \<Rightarrow> (Leave, ctx, s1\<lparr>results := l_store L (fr_task_id fr) v (results s1)\<rparr>)
              | Inl e \<Rightarrow> (Catch e, ctx, s1))
      | Catch e \<Rightarrow>
          (let s1 = s\<lparr>claimed := claimed s @ [fr_task_id fr]\<rparr>
           in if err_flag s then (Leave, ctx, s1)
              else (Store e, ctx, s1\<lparr>err_flag := True\<rparr>))
      | Store e \<Rightarrow> (Leave, ctx, s\<lparr>eptr := Some e\<rparr>)
      | Leave \<Rightarrow> (Return, unset_thread_num (set_in_parallel_region False ctx), s)
      | Return \<Rightarrow> (Return, ctx, s))"

subsection \<open>The calling thread\<close>

text \<open>
  One step of the calling thread in the parallel branch: an iteration of the
  dispatch loop, a step of \<^verbatim>\<open>task(0, begin, first_task_end)\<close>, or an iteration of
  the wait loop, which does not move while the future is pending.
\<close>

definition caller_step :: "('e, 'v, 'r) locals \<Rightarrow> ('e, 'r) engine \<Rightarrow> ('e, 'r) engine" where
  "caller_step L s =
     (case caller_pc s of
        Sequential \<Rightarrow> s
      | Dispatch task_id \<Rightarrow>
          if task_id < l_num_tasks L then
            (let s1 = s\<lparr>futures := (futures s)(task_id := Some Pending)\<rparr>;
                 ls = local_start (l_begin L) (l_chunk_size L) task_id
             in if ls <s l_end L then
                  s1\<lparr>closures := (closures s1)(task_id := Queued
                        \<lparr>fr_task_id = task_id, fr_start = ls,
                         fr_end = local_end (l_end L) (l_chunk_size L) ls\<rparr>),
                     caller_pc := Dispatch (task_id + 1)\<rparr>
                else
                  s1\<lparr>futures := (futures s1)(task_id := Some Completed),
                     caller_pc := Dispatch (task_id + 1)\<rparr>)
          else s\<lparr>caller_pc := Task0 Enter\<rparr>
      | Task0 pc \<Rightarrow>
          if pc = Return then s\<lparr>caller_pc := Wait 1\<rparr>
          else
            (case task_step L None
                    \<lparr>fr_task_id = 0, fr_start = l_begin L,
                     fr_end = local_end (l_end L) (l_chunk_size L) (l_begin L)\<rparr>
                    pc (caller_ctx s) s of
               (pc', ctx', s') \<Rightarrow> s'\<lparr>caller_pc := Task0 pc', caller_ctx := ctx'\<rparr>)
      | Wait task_id \<Rightarrow>
          if task_id < l_num_tasks L then
            (if futures s task_id = Some Completed then s\<lparr>caller_pc := Wait (task_id + 1)\<rparr>
             else s)
          else s\<lparr>caller_pc := Joined\<rparr>
      | Joined \<Rightarrow> s)"

subsection \<open>The worker threads\<close>

text \<open>
  The task ids of the closures that the dispatch loop can submit, and the test
  that worker \<open>w\<close> is running none of them.
\<close>

definition task_ids :: "('e, 'v, 'r) locals \<Rightarrow> size_t list" where
  "task_ids L = map of_nat [1 ..< unat (l_num_tasks L)]"

definition runs_on :: "nat \<Rightarrow> 'e closure \<Rightarrow> bool" where
  "runs_on w c = (case c of Running w' _ _ \<Rightarrow> w' = w | _ \<Rightarrow> False)"

definition idle :: "('e, 'v, 'r) locals \<Rightarrow> nat \<Rightarrow> ('e, 'r) engine \<Rightarrow> bool" where
  "idle L w s = list_all (\<lambda>k. \<not> runs_on w (closures s k)) (task_ids L)"

text \<open>
  One step of worker \<open>w\<close> on the closure of task \<open>k\<close>: an idle worker takes a queued
  closure; the worker that runs it moves it by one step of \<^verbatim>\<open>task\<close>, and after the
  return of \<^verbatim>\<open>task\<close> by \<^verbatim>\<open>future_ptr->markCompleted\<close>. In every other case the step
  does nothing.
\<close>

definition worker_step ::
  "('e, 'v, 'r) locals \<Rightarrow> nat \<Rightarrow> size_t \<Rightarrow> ('e, 'r) engine \<Rightarrow> ('e, 'r) engine"
where
  "worker_step L w k s =
     (if w < length (worker_ctx s) then
        (case closures s k of
           Unsubmitted \<Rightarrow> s
         | Queued fr \<Rightarrow>
             if idle L w s then s\<lparr>closures := (closures s)(k := Running w fr Enter)\<rparr> else s
         | Running w' fr pc \<Rightarrow>
             if w' \<noteq> w then s
             else if pc = Return then
               s\<lparr>closures := (closures s)(k := Finished),
                 futures := (futures s)(k := Some Completed)\<rparr>
             else
               (case task_step L (Some w) fr pc (worker_ctx s ! w) s of
                  (pc', ctx', s') \<Rightarrow>
                    s'\<lparr>closures := (closures s')(k := Running w fr pc'),
                       worker_ctx := (worker_ctx s')[w := ctx']\<rparr>)
         | Finished \<Rightarrow> s)
      else s)"

subsection \<open>Schedules\<close>

datatype actor = Caller | Worker nat size_t

definition step :: "('e, 'v, 'r) locals \<Rightarrow> actor \<Rightarrow> ('e, 'r) engine \<Rightarrow> ('e, 'r) engine" where
  "step L a s = (case a of Caller \<Rightarrow> caller_step L s | Worker w k \<Rightarrow> worker_step L w k s)"

fun run :: "('e, 'v, 'r) locals \<Rightarrow> actor list \<Rightarrow> ('e, 'r) engine \<Rightarrow> ('e, 'r) engine" where
  "run L [] s = s"
| "run L (a # as) s = run L as (step L a s)"

subsection \<open>The two primitives\<close>

text \<open>
  What a call raises: an error of the engine, or the exception of a body.
\<close>

datatype 'e exn = Engine error | Thrown 'e

text \<open>
  \<^verbatim>\<open>parallel_for\<close>. The result is the outcome for the calling thread together with
  the final state; the outcome is \<open>None\<close> when the calling thread has not come out
  of the wait loop by the end of the schedule. The three early branches do not
  depend on the schedule.
\<close>

definition parallel_for ::
  "nat \<Rightarrow> actor list \<Rightarrow> RegionContext \<Rightarrow> RegionContext list \<Rightarrow>
   int64_t \<Rightarrow> int64_t \<Rightarrow> int64_t \<Rightarrow> (int64_t \<Rightarrow> int64_t \<Rightarrow> 'e + unit) \<Rightarrow>
   ('e exn + unit) option \<times> ('e, unit) engine"
where
  "parallel_for num_threads sched ctx wctx lo hi grain_size f =
     (let s0 = before_call ctx wctx
      in if hi \<le>s lo then (Some (Inr ()), s0)
         else if grain_size <s 0 then
           (Some (Inl (Engine (runtime_error
              ''Invalid begin, end or grain_size in parallel_for''))), s0)
         else if grain_size \<le>s hi - lo \<and> \<not> in_parallel_region ctx then
           (let cs = chunk_size num_threads lo hi grain_size;
                L = \<lparr>l_begin = lo, l_end = hi, l_chunk_size = cs,
                     l_num_tasks = num_tasks lo hi cs,
                     l_body = f, l_store = (\<lambda>_ _ rs. rs)\<rparr>;
                s = run L sched (s0\<lparr>caller_pc := Dispatch 1\<rparr>)
            in (if caller_pc s = Joined then
                  Some (case eptr s of Some e \<Rightarrow> Inl (Thrown e) | None \<Rightarrow> Inr ())
                else None, s))
         else
           (let s1 = s0\<lparr>calls := [\<lparr>call_thread = None, call_ctx = ctx, call_task = None,
                                    call_start = lo, call_end = hi\<rparr>]\<rparr>
            in case f lo hi of
                 Inl e \<Rightarrow> (Some (Inl (Thrown e)), s1)
               | Inr _ \<Rightarrow> (Some (Inr ()), s1)))"

text \<open>
  \<^verbatim>\<open>parallel_reduce\<close>. \<open>dflt\<close> is the value-initialised \<^verbatim>\<open>scalar_t\<close> that fills the
  fresh \<^verbatim>\<open>results\<close> vector; \<^verbatim>\<open>std::accumulate\<close> is a left fold from \<open>ident\<close>.
\<close>

definition parallel_reduce ::
  "nat \<Rightarrow> actor list \<Rightarrow> RegionContext \<Rightarrow> RegionContext list \<Rightarrow> 'a \<Rightarrow>
   int64_t \<Rightarrow> int64_t \<Rightarrow> int64_t \<Rightarrow> 'a \<Rightarrow> (int64_t \<Rightarrow> int64_t \<Rightarrow> 'a \<Rightarrow> 'e + 'a) \<Rightarrow>
   ('a \<Rightarrow> 'a \<Rightarrow> 'a) \<Rightarrow> ('e exn + 'a) option \<times> ('e, 'a) engine"
where
  "parallel_reduce num_threads sched ctx wctx dflt lo hi grain_size ident f sf =
     (let s0 = before_call ctx wctx
      in if hi \<le>s lo then (Some (Inr ident), s0)
         else if grain_size <s 0 then
           (Some (Inl (Engine (runtime_error
              ''Invalid begin, end or grain_size in parallel_reduce''))), s0)
         else if grain_size \<le>s hi - lo \<and> \<not> in_parallel_region ctx then
           (let cs = chunk_size num_threads lo hi grain_size;
                n = num_tasks lo hi cs;
                L = \<lparr>l_begin = lo, l_end = hi, l_chunk_size = cs, l_num_tasks = n,
                     l_body = (\<lambda>ls le. f ls le ident),
                     l_store = (\<lambda>task_id v rs. rs[unat task_id := v])\<rparr>;
                s = run L sched
                      (s0\<lparr>caller_pc := Dispatch 1, results := replicate (unat n) dflt\<rparr>)
            in (if caller_pc s = Joined then
                  Some (case eptr s of
                          Some e \<Rightarrow> Inl (Thrown e)
                        | None \<Rightarrow> Inr (foldl sf ident (results s)))
                else None, s))
         else
           (let s1 = s0\<lparr>calls := [\<lparr>call_thread = None, call_ctx = ctx, call_task = None,
                                    call_start = lo, call_end = hi\<rparr>]\<rparr>
            in case f lo hi ident of
                 Inl e \<Rightarrow> (Some (Inl (Thrown e)), s1)
               | Inr v \<Rightarrow> (Some (Inr v), s1)))"

subsection \<open>The precondition of the parallel branch\<close>

text \<open>
  The tests that lead into the parallel branch, apart from the check of the
  calling thread's context, together with the assumption that
  \<^verbatim>\<open>get_num_threads()\<close> is positive.
\<close>

definition parallel_case :: "nat \<Rightarrow> int64_t \<Rightarrow> int64_t \<Rightarrow> int64_t \<Rightarrow> bool" where
  "parallel_case num_threads lo hi grain_size \<longleftrightarrow>
     0 < num_threads \<and> lo <s hi \<and> 0 \<le>s grain_size \<and> grain_size \<le>s hi - lo"

subsection \<open>Notions for stating the properties of a run\<close>

text \<open>
  The values that the task with id \<open>k\<close> is started with, and the outcome of its
  body. For \<open>k = 0\<close> the start is \<^verbatim>\<open>begin\<close> and the end is \<^verbatim>\<open>first_task_end\<close>.
\<close>

definition frame_of :: "('e, 'v, 'r) locals \<Rightarrow> size_t \<Rightarrow> frame" where
  "frame_of L k =
     \<lparr>fr_task_id = k,
      fr_start = local_start (l_begin L) (l_chunk_size L) k,
      fr_end = local_end (l_end L) (l_chunk_size L)
                 (local_start (l_begin L) (l_chunk_size L) k)\<rparr>"

definition body_of :: "('e, 'v, 'r) locals \<Rightarrow> size_t \<Rightarrow> 'e + 'v" where
  "body_of L k = l_body L (fr_start (frame_of L k)) (fr_end (frame_of L k))"

text \<open>
  The locals of a call whose every task from 1 on starts before \<^verbatim>\<open>end\<close>.
\<close>

definition plan_ok :: "('e, 'v, 'r) locals \<Rightarrow> bool" where
  "plan_ok L \<longleftrightarrow>
     1 \<le> l_num_tasks L \<and>
     (\<forall>k. 1 \<le> k \<and> k < l_num_tasks L \<longrightarrow>
          local_start (l_begin L) (l_chunk_size L) k <s l_end L)"

text \<open>
  What holds of the program counter of the calling thread, of the closures and
  of the futures in every state of a run with \<open>W\<close> worker threads.
\<close>

definition inv_pc :: "('e, 'v, 'r) locals \<Rightarrow> ('e, 'r) engine \<Rightarrow> bool" where
  "inv_pc L s \<longleftrightarrow>
     caller_pc s \<noteq> Sequential
     \<and> (\<forall>j. caller_pc s = Dispatch j \<longrightarrow>
            1 \<le> j \<and> j \<le> l_num_tasks L \<and> (\<forall>k. j \<le> k \<longrightarrow> closures s k = Unsubmitted))
     \<and> (\<forall>j. caller_pc s = Wait j \<longrightarrow>
            1 \<le> j \<and> j \<le> l_num_tasks L \<and> (\<forall>k. 1 \<le> k \<and> k < j \<longrightarrow> closures s k = Finished))
     \<and> (caller_pc s = Joined \<longrightarrow>
            (\<forall>k. 1 \<le> k \<and> k < l_num_tasks L \<longrightarrow> closures s k = Finished))"

definition inv_closures :: "('e, 'v, 'r) locals \<Rightarrow> nat \<Rightarrow> ('e, 'r) engine \<Rightarrow> bool" where
  "inv_closures L W s \<longleftrightarrow>
     length (worker_ctx s) = W
     \<and> (\<forall>k. closures s k \<noteq> Unsubmitted \<longrightarrow> 1 \<le> k \<and> k < l_num_tasks L)
     \<and> (\<forall>k fr. closures s k = Queued fr \<longrightarrow> fr = frame_of L k)
     \<and> (\<forall>k w fr pc. closures s k = Running w fr pc \<longrightarrow> fr = frame_of L k \<and> w < W)
     \<and> (\<forall>k k' w. runs_on w (closures s k) \<and> runs_on w (closures s k') \<longrightarrow> k = k')"

definition inv_futures :: "('e, 'r) engine \<Rightarrow> bool" where
  "inv_futures s \<longleftrightarrow> (\<forall>k. futures s k = Some Completed \<longleftrightarrow> closures s k = Finished)"

definition structure_inv :: "('e, 'v, 'r) locals \<Rightarrow> nat \<Rightarrow> ('e, 'r) engine \<Rightarrow> bool" where
  "structure_inv L W s \<longleftrightarrow> inv_pc L s \<and> inv_closures L W s \<and> inv_futures s"

text \<open>
  How far a task has come: not started, at a point of the task lambda, or ended
  (for a submitted closure, after \<^verbatim>\<open>markCompleted\<close>; for task 0, once the calling
  thread is in the wait loop).
\<close>

datatype 'e progress = NotStarted | At "'e task_pc" | Ended

fun caller_progress :: "'e caller_pc \<Rightarrow> 'e progress" where
  "caller_progress Sequential = NotStarted"
| "caller_progress (Dispatch _) = NotStarted"
| "caller_progress (Task0 pc) = At pc"
| "caller_progress (Wait _) = Ended"
| "caller_progress Joined = Ended"

fun closure_progress :: "'e closure \<Rightarrow> 'e progress" where
  "closure_progress Unsubmitted = NotStarted"
| "closure_progress (Queued _) = NotStarted"
| "closure_progress (Running _ _ pc) = At pc"
| "closure_progress Finished = Ended"

definition progress :: "('e, 'r) engine \<Rightarrow> size_t \<Rightarrow> 'e progress" where
  "progress s k =
     (if k = 0 then caller_progress (caller_pc s) else closure_progress (closures s k))"

text \<open>
  The context of the thread that is running task \<open>k\<close>: the calling thread for
  task 0, and for a closure the worker that has taken it.
\<close>

definition thread_ctx :: "('e, 'r) engine \<Rightarrow> size_t \<Rightarrow> RegionContext option" where
  "thread_ctx s k =
     (if k = 0 then Some (caller_ctx s)
      else (case closures s k of
              Running w _ _ \<Rightarrow> Some (worker_ctx s ! w)
            | _ \<Rightarrow> None))"

text \<open>The body of the task has been invoked; the catch handler has been left.\<close>

fun past_body :: "'e progress \<Rightarrow> bool" where
  "past_body NotStarted = False"
| "past_body (At Enter) = False"
| "past_body (At Body) = False"
| "past_body _ = True"

fun past_catch :: "'e progress \<Rightarrow> bool" where
  "past_catch NotStarted = False"
| "past_catch (At Enter) = False"
| "past_catch (At Body) = False"
| "past_catch (At (Catch _)) = False"
| "past_catch _ = True"

fun past_store :: "'e progress \<Rightarrow> bool" where
  "past_store (At Leave) = True"
| "past_store (At Return) = True"
| "past_store Ended = True"
| "past_store _ = False"

text \<open>The state in which the calling thread enters the dispatch loop.\<close>

definition forked :: "RegionContext \<Rightarrow> RegionContext list \<Rightarrow> 'r list \<Rightarrow> ('e, 'r) engine" where
  "forked ctx wctx rs = (before_call ctx wctx)\<lparr>caller_pc := Dispatch 1, results := rs\<rparr>"

text \<open>The context of a thread inside a task, and after it.\<close>

definition inside :: "size_t \<Rightarrow> RegionContext" where
  "inside k = \<lparr>in_parallel_region = True, thread_num = Some k\<rparr>"

definition outside :: RegionContext where
  "outside = \<lparr>in_parallel_region = False, thread_num = None\<rparr>"

text \<open>
  The sequential fold of the specification: the combiner applied from the left
  to the contributions \<open>elt i\<close> of the indices \<open>i\<close> of \<open>[s, t)\<close>, starting from \<open>e\<close>.
\<close>

definition seq_fold ::
  "('a \<Rightarrow> 'a \<Rightarrow> 'a) \<Rightarrow> (int \<Rightarrow> 'a) \<Rightarrow> int64_t \<Rightarrow> int64_t \<Rightarrow> 'a \<Rightarrow> 'a"
where
  "seq_fold sf elt s t e = foldl (\<lambda>acc i. sf acc (elt i)) e [sint s .. sint t - 1]"

text \<open>
  The moves of one task, as they show in the progress of the tasks, in the
  contexts of their threads and in the variables that the tasks share. Every
  step of a run is a move of one task or changes none of these.
\<close>

definition same_shared :: "('e, 'r) engine \<Rightarrow> ('e, 'r) engine \<Rightarrow> bool" where
  "same_shared s s' \<longleftrightarrow>
     err_flag s' = err_flag s \<and> eptr s' = eptr s \<and> claimed s' = claimed s \<and>
     calls s' = calls s \<and> results s' = results s"

definition moved ::
  "size_t \<Rightarrow> 'e progress \<Rightarrow> RegionContext option \<Rightarrow> ('e, 'r) engine \<Rightarrow> ('e, 'r) engine \<Rightarrow> bool"
where
  "moved k p c s s' \<longleftrightarrow>
     progress s' = (progress s)(k := p) \<and> thread_ctx s' = (thread_ctx s)(k := c)"

definition call_of :: "('e, 'v, 'r) locals \<Rightarrow> nat option \<Rightarrow> RegionContext \<Rightarrow> size_t \<Rightarrow> call" where
  "call_of L who c k =
     \<lparr>call_thread = who, call_ctx = c, call_task = Some k,
      call_start = fr_start (frame_of L k), call_end = fr_end (frame_of L k)\<rparr>"

inductive task_move ::
  "('e, 'v, 'r) locals \<Rightarrow> size_t \<Rightarrow> ('e, 'r) engine \<Rightarrow> ('e, 'r) engine \<Rightarrow> bool"
  for L :: "('e, 'v, 'r) locals" and k :: size_t
where
  tm_begin:
    "progress s k = NotStarted \<Longrightarrow> moved k (At Enter) (Some c) s s' \<Longrightarrow>
     (k = 0 \<longrightarrow> c = caller_ctx s) \<Longrightarrow> same_shared s s' \<Longrightarrow> task_move L k s s'"
| tm_enter:
    "progress s k = At Enter \<Longrightarrow> thread_ctx s k = Some c \<Longrightarrow>
     moved k (At Body) (Some (set_in_parallel_region True (set_thread_num k c))) s s' \<Longrightarrow>
     same_shared s s' \<Longrightarrow> task_move L k s s'"
| tm_return:
    "progress s k = At Body \<Longrightarrow> thread_ctx s k = Some c \<Longrightarrow> body_of L k = Inr v \<Longrightarrow>
     moved k (At Leave) (Some c) s s' \<Longrightarrow>
     calls s' = calls s @ [call_of L who c k] \<Longrightarrow> (who = None \<longleftrightarrow> k = 0) \<Longrightarrow>
     results s' = l_store L k v (results s) \<Longrightarrow>
     err_flag s' = err_flag s \<Longrightarrow> eptr s' = eptr s \<Longrightarrow> claimed s' = claimed s \<Longrightarrow>
     task_move L k s s'"
| tm_throw:
    "progress s k = At Body \<Longrightarrow> thread_ctx s k = Some c \<Longrightarrow> body_of L k = Inl e \<Longrightarrow>
     moved k (At (Catch e)) (Some c) s s' \<Longrightarrow>
     calls s' = calls s @ [call_of L who c k] \<Longrightarrow> (who = None \<longleftrightarrow> k = 0) \<Longrightarrow>
     results s' = results s \<Longrightarrow>
     err_flag s' = err_flag s \<Longrightarrow> eptr s' = eptr s \<Longrightarrow> claimed s' = claimed s \<Longrightarrow>
     task_move L k s s'"
| tm_lose:
    "progress s k = At (Catch e) \<Longrightarrow> err_flag s \<Longrightarrow> thread_ctx s k = Some c \<Longrightarrow>
     moved k (At Leave) (Some c) s s' \<Longrightarrow> claimed s' = claimed s @ [k] \<Longrightarrow>
     err_flag s' = err_flag s \<Longrightarrow> eptr s' = eptr s \<Longrightarrow>
     calls s' = calls s \<Longrightarrow> results s' = results s \<Longrightarrow> task_move L k s s'"
| tm_win:
    "progress s k = At (Catch e) \<Longrightarrow> \<not> err_flag s \<Longrightarrow> thread_ctx s k = Some c \<Longrightarrow>
     moved k (At (Store e)) (Some c) s s' \<Longrightarrow> claimed s' = claimed s @ [k] \<Longrightarrow>
     err_flag s' \<Longrightarrow> eptr s' = eptr s \<Longrightarrow>
     calls s' = calls s \<Longrightarrow> results s' = results s \<Longrightarrow> task_move L k s s'"
| tm_store:
    "progress s k = At (Store e) \<Longrightarrow> thread_ctx s k = Some c \<Longrightarrow>
     moved k (At Leave) (Some c) s s' \<Longrightarrow> eptr s' = Some e \<Longrightarrow>
     err_flag s' = err_flag s \<Longrightarrow> claimed s' = claimed s \<Longrightarrow>
     calls s' = calls s \<Longrightarrow> results s' = results s \<Longrightarrow> task_move L k s s'"
| tm_leave:
    "progress s k = At Leave \<Longrightarrow> thread_ctx s k = Some c \<Longrightarrow>
     moved k (At Return) (Some (unset_thread_num (set_in_parallel_region False c))) s s' \<Longrightarrow>
     same_shared s s' \<Longrightarrow> task_move L k s s'"
| tm_end:
    "progress s k = At Return \<Longrightarrow>
     moved k Ended (if k = 0 then Some (caller_ctx s) else None) s s' \<Longrightarrow>
     same_shared s s' \<Longrightarrow> task_move L k s s'"

definition quiet :: "('e, 'r) engine \<Rightarrow> ('e, 'r) engine \<Rightarrow> bool" where
  "quiet s s' \<longleftrightarrow> progress s' = progress s \<and> thread_ctx s' = thread_ctx s \<and> same_shared s s'"

text \<open>
  What holds in every state of a run of the contexts, of the log of invocations and
  of the exception variables. \<open>in_task\<close> says that the task is between the two
  updates of the context.
\<close>

fun in_task :: "'e progress \<Rightarrow> bool" where
  "in_task (At Body) = True"
| "in_task (At (Catch _)) = True"
| "in_task (At (Store _)) = True"
| "in_task (At Leave) = True"
| "in_task _ = False"

definition ctx_inv :: "('e, 'r) engine \<Rightarrow> bool" where
  "ctx_inv s \<longleftrightarrow>
     (\<forall>k. (in_task (progress s k) \<longrightarrow> thread_ctx s k = Some (inside k))
        \<and> (progress s k = At Return \<longrightarrow> thread_ctx s k = Some outside))
     \<and> (progress s 0 = Ended \<longrightarrow> thread_ctx s 0 = Some outside)"

definition calls_inv :: "('e, 'v, 'r) locals \<Rightarrow> ('e, 'r) engine \<Rightarrow> bool" where
  "calls_inv L s \<longleftrightarrow>
     (\<forall>c \<in> set (calls s). \<exists>k who. c = call_of L who (inside k) k \<and> (who = None \<longleftrightarrow> k = 0))
     \<and> (\<forall>k. count_list (map call_task (calls s)) (Some k)
              = (if past_body (progress s k) then 1 else 0))"

definition exn_inv :: "('e, 'v, 'r) locals \<Rightarrow> ('e, 'r) engine \<Rightarrow> bool" where
  "exn_inv L s \<longleftrightarrow>
     (err_flag s \<longleftrightarrow> claimed s \<noteq> [])
     \<and> distinct (claimed s)
     \<and> (\<forall>k. k \<in> set (claimed s) \<longleftrightarrow> (\<exists>e. body_of L k = Inl e) \<and> past_catch (progress s k))
     \<and> (\<forall>k e. progress s k = At (Catch e) \<or> progress s k = At (Store e) \<longrightarrow> body_of L k = Inl e)
     \<and> (\<forall>k e. progress s k = At (Store e) \<longrightarrow>
            claimed s \<noteq> [] \<and> hd (claimed s) = k \<and> eptr s = None)
     \<and> (\<forall>e. eptr s = Some e \<longrightarrow>
            claimed s \<noteq> [] \<and> body_of L (hd (claimed s)) = Inl e
            \<and> past_store (progress s (hd (claimed s))))
     \<and> (eptr s = None \<and> claimed s \<noteq> [] \<longrightarrow> (\<exists>e. progress s (hd (claimed s)) = At (Store e)))"

definition run_inv :: "('e, 'v, 'r) locals \<Rightarrow> ('e, 'r) engine \<Rightarrow> bool" where
  "run_inv L s \<longleftrightarrow> ctx_inv s \<and> calls_inv L s \<and> exn_inv L s"

text \<open>
  What holds of the \<^verbatim>\<open>results\<close> buffer of \<^verbatim>\<open>parallel_reduce\<close> in every state of a
  run: it has one slot per task, and the slot of a task whose body has returned
  holds the value returned.
\<close>

definition results_inv :: "('e, 'a, 'a) locals \<Rightarrow> ('e, 'a) engine \<Rightarrow> bool" where
  "results_inv L s \<longleftrightarrow>
     length (results s) = unat (l_num_tasks L)
     \<and> (\<forall>k v. past_body (progress s k) \<and> body_of L k = Inr v \<longrightarrow> results s ! unat k = v)"

text \<open>The locals of the parallel branch of each primitive.\<close>

definition for_locals ::
  "nat \<Rightarrow> int64_t \<Rightarrow> int64_t \<Rightarrow> int64_t \<Rightarrow> (int64_t \<Rightarrow> int64_t \<Rightarrow> 'e + unit) \<Rightarrow>
   ('e, unit, unit) locals"
where
  "for_locals num_threads lo hi grain_size f =
     \<lparr>l_begin = lo, l_end = hi,
      l_chunk_size = chunk_size num_threads lo hi grain_size,
      l_num_tasks = num_tasks lo hi (chunk_size num_threads lo hi grain_size),
      l_body = f, l_store = (\<lambda>_ _ rs. rs)\<rparr>"

definition reduce_locals ::
  "nat \<Rightarrow> int64_t \<Rightarrow> int64_t \<Rightarrow> int64_t \<Rightarrow> 'a \<Rightarrow> (int64_t \<Rightarrow> int64_t \<Rightarrow> 'a \<Rightarrow> 'e + 'a) \<Rightarrow>
   ('e, 'a, 'a) locals"
where
  "reduce_locals num_threads lo hi grain_size ident f =
     \<lparr>l_begin = lo, l_end = hi,
      l_chunk_size = chunk_size num_threads lo hi grain_size,
      l_num_tasks = num_tasks lo hi (chunk_size num_threads lo hi grain_size),
      l_body = (\<lambda>ls le. f ls le ident),
      l_store = (\<lambda>task_id v rs. rs[unat task_id := v])\<rparr>"

text \<open>
  A bound on the steps that are left until the calling thread has joined, and the
  fact that the closures of all tasks below the loop variable have been submitted.
\<close>

fun pc_rank :: "'e task_pc \<Rightarrow> nat" where
  "pc_rank Enter = 6"
| "pc_rank Body = 5"
| "pc_rank (Catch _) = 4"
| "pc_rank (Store _) = 3"
| "pc_rank Leave = 2"
| "pc_rank Return = 1"

fun closure_rank :: "'e closure \<Rightarrow> nat" where
  "closure_rank Unsubmitted = 8"
| "closure_rank (Queued _) = 7"
| "closure_rank (Running _ _ pc) = pc_rank pc"
| "closure_rank Finished = 0"

fun caller_rank :: "nat \<Rightarrow> 'e caller_pc \<Rightarrow> nat" where
  "caller_rank n Sequential = 0"
| "caller_rank n (Dispatch j) = (n - unat j) + 6 + n + 2"
| "caller_rank n (Task0 pc) = pc_rank pc + n + 1"
| "caller_rank n (Wait j) = (n - unat j) + 1"
| "caller_rank n Joined = 0"

definition remaining :: "('e, 'v, 'r) locals \<Rightarrow> ('e, 'r) engine \<Rightarrow> nat" where
  "remaining L s =
     caller_rank (unat (l_num_tasks L)) (caller_pc s)
     + sum_list (map (\<lambda>k. closure_rank (closures s k)) (task_ids L))"

definition inv_submitted :: "('e, 'v, 'r) locals \<Rightarrow> ('e, 'r) engine \<Rightarrow> bool" where
  "inv_submitted L s \<longleftrightarrow>
     (\<forall>k. 1 \<le> k \<and> k < l_num_tasks L \<and> (\<forall>j. caller_pc s = Dispatch j \<longrightarrow> k < j)
          \<longrightarrow> closures s k \<noteq> Unsubmitted)"


text \<open>
  The state at the join, as the claims on exceptions describe it: every task has
  been invoked exactly once, every dispatched future is completed, every task whose
  body raised has called \<^verbatim>\<open>test_and_set\<close> once, and the exception pointer holds
  the exception of the task whose call came first.
\<close>

definition joined_ok :: "('e, 'v, 'r) locals \<Rightarrow> ('e, 'r) engine \<Rightarrow> bool" where
  "joined_ok L s \<longleftrightarrow>
     (\<forall>k. count_list (map call_task (calls s)) (Some k) = (if k < l_num_tasks L then 1 else 0))
     \<and> (\<forall>k. 1 \<le> k \<and> k < l_num_tasks L \<longrightarrow> futures s k = Some Completed)
     \<and> distinct (claimed s)
     \<and> set (claimed s) = {k. k < l_num_tasks L \<and> (\<exists>e. body_of L k = Inl e)}
     \<and> eptr s = (case claimed s of
                   [] \<Rightarrow> None
                 | k # _ \<Rightarrow> (case body_of L k of Inl e \<Rightarrow> Some e | Inr _ \<Rightarrow> None))"

text \<open>
  Two schedules for a call with two tasks and one worker: in the first the worker
  runs task 1 to its end before the calling thread starts task 0, in the second
  the calling thread finishes task 0 first.
\<close>

definition worker_first :: "actor list" where
  "worker_first = [Caller, Caller] @ replicate 7 (Worker 0 1) @ replicate 8 Caller"

definition caller_first :: "actor list" where
  "caller_first = replicate 8 Caller @ replicate 7 (Worker 0 1) @ replicate 2 Caller"


text \<open>
  The contexts that the engine leaves on a thread. The two fields are written
  only by the task lambda, the thread number and the flag together on entry and
  together on exit, and a fresh thread has the flag cleared and no thread number:
  the flag is set exactly when the thread number is.
\<close>

definition engine_ctx :: "RegionContext \<Rightarrow> bool" where
  "engine_ctx c \<longleftrightarrow> (in_parallel_region c \<longleftrightarrow> thread_num c \<noteq> None)"



section \<open>Properties of the inter-op pool\<close>

subsection \<open>Conversions between the integer types\<close>

lemma ucast_hw_neq_scast_unset:
  "(ucast (hw :: cunsigned) :: size_t) \<noteq> scast (- 1 :: cint)"
proof
  assume eq: "(ucast hw :: size_t) = scast (- 1 :: cint)"
  have "uint (ucast hw :: size_t) = uint hw"
    by (simp add: uint_up_ucast is_up)
  moreover have "uint hw < 2 ^ 32"
    using uint_lt2p [of hw] by simp
  moreover have "uint (scast (- 1 :: cint) :: size_t) = 2 ^ 64 - 1"
    by (simp add: uint_word_ariths)
  ultimately show False
    using eq by simp
qed

lemma ucast_hw_neq_scast_init:
  "(ucast (hw :: cunsigned) :: size_t) \<noteq> scast (- 2 :: cint)"
proof
  assume eq: "(ucast hw :: size_t) = scast (- 2 :: cint)"
  have "uint (ucast hw :: size_t) = uint hw"
    by (simp add: uint_up_ucast is_up)
  moreover have "uint hw < 2 ^ 32"
    using uint_lt2p [of hw] by simp
  moreover have "uint (scast (- 2 :: cint) :: size_t) = 2 ^ 64 - 2"
    by (simp add: uint_word_ariths)
  ultimately show False
    using eq by simp
qed

lemma ucast_small_sint:
  assumes "unat (n :: size_t) < 2 ^ 31"
  shows "sint (ucast n :: cint) = int (unat n)"
proof -
  have lo: "- (2 ^ 31) \<le> uint n"
    by (rule order_trans [of _ 0]) simp_all
  have "int (unat n) < 2 ^ 31"
    using assms by (metis of_nat_less_numeral_power_cancel_iff)
  then have hi: "uint n < 2 ^ 31"
    by (simp only: uint_nat)
  have "sint (ucast n :: cint) = signed_take_bit 31 (uint n)"
    by (simp add: signed_ucast_eq)
  also have "\<dots> = uint n"
    using lo hi by (rule signed_take_bit_int_eq_self)
  finally show ?thesis by (simp only: uint_nat)
qed

subsection \<open>Reading the number of inter-op threads\<close>

lemma get_num_interop_threads_UserRequested:
  assumes "UserRequested n s"
  shows "get_num_interop_threads a hw s = (Inr (of_nat n), s)"
proof -
  have pos: "0 <s num_interop_threads s"
    using assms by (simp add: UserRequested_def word_sless_alt)
  have "(scast (num_interop_threads s) :: size_t) = word_of_int (sint (num_interop_threads s))"
    by simp
  also have "\<dots> = of_nat n"
    using assms by (simp add: UserRequested_def)
  finally show ?thesis
    using pos by (simp add: get_num_interop_threads_def Let_def)
qed

lemma get_num_interop_threads_Unset:
  assumes "Unset s"
  shows "get_num_interop_threads a hw s = (Inr (ucast hw), s)"
  using assms by (simp add: get_num_interop_threads_def Unset_def Let_def word_sless_alt)

lemma uint_sint_nonneg:
  fixes w :: "'a::len word"
  assumes "0 \<le> sint w"
  shows "uint w = sint w"
proof -
  have "sint w < 2 ^ LENGTH('a)"
    using sint_lt [of w] by (smt (verit) power_strict_increasing_iff diff_less len_gt_0 zero_less_one one_less_numeral_iff semiring_norm(76))
  then show ?thesis
    using assms by (simp add: uint_sint take_bit_eq_mod)
qed

lemma UserRequested_scast:
  assumes "UserRequested n s"
  shows "(scast (num_interop_threads s) :: size_t) = of_nat n"
proof -
  have "(scast (num_interop_threads s) :: size_t) = word_of_int (sint (num_interop_threads s))"
    by simp
  also have "\<dots> = of_nat n"
    using assms by (simp add: UserRequested_def)
  finally show ?thesis .
qed

lemma UserRequested_ucast:
  assumes "UserRequested n s"
  shows "(ucast (num_interop_threads s) :: size_t) = of_nat n"
proof -
  have "0 \<le> sint (num_interop_threads s)"
    using assms by (simp add: UserRequested_def)
  then have "uint (num_interop_threads s) = int n"
    using assms uint_sint_nonneg [of "num_interop_threads s"] by (simp add: UserRequested_def)
  moreover have "(ucast (num_interop_threads s) :: size_t) = word_of_int (uint (num_interop_threads s))"
    by simp
  ultimately show ?thesis by simp
qed

lemma launch_UserRequested:
  assumes "UserRequested n s" and "pool s = None" and "c10_pool s = None"
  shows "fst (launch a hw f s) = Inr ()"
    and "Initialized (snd (launch a hw f s))"
    and "get_num_interop_threads a hw (snd (launch a hw f s)) = (Inr (of_nat n), snd (launch a hw f s))"
proof -
  have pos: "0 <s num_interop_threads s"
    using assms by (simp add: UserRequested_def word_sless_alt)
  note sz = UserRequested_scast [OF assms(1)] and uc = UserRequested_ucast [OF assms(1)]
  show "fst (launch a hw f s) = Inr ()"
    using assms(2,3) pos uc sz by (simp add: launch_def get_pool_def createC10ThreadPool_def Let_def get_num_interop_threads_def)
  show "Initialized (snd (launch a hw f s))"
    using assms(2,3) pos uc sz by (simp add: launch_def get_pool_def createC10ThreadPool_def Let_def get_num_interop_threads_def Initialized_def)
  show "get_num_interop_threads a hw (snd (launch a hw f s)) = (Inr (of_nat n), snd (launch a hw f s))"
    using assms(2,3) pos uc sz by (simp add: launch_def get_pool_def createC10ThreadPool_def Let_def get_num_interop_threads_def word_sless_alt)
qed

text \<open>
  Claim C7. \<^verbatim>\<open>get_num_interop_threads\<close> is to return the requested value in state
  \<open>UserRequested n\<close> and the hardware concurrency in state \<open>Unset\<close> (both shown
  above, together with the case of a pool materialised from a requested value), and
  after a materialisation by \<^verbatim>\<open>launch\<close> with no value committed it is to return the
  hardware concurrency. On that last path the code does otherwise: the pool is built
  with \<^verbatim>\<open>hardware_concurrency()\<close> threads, but \<^verbatim>\<open>pool_size\<close> is \<open>-1\<close>, so the
  assertion \<^verbatim>\<open>pool->size() == pool_size\<close> is false. With checked assertions the first
  \<^verbatim>\<open>launch\<close> in the fresh state raises, the state is \<open>Initialized\<close> all the same, and
  \<^verbatim>\<open>get_num_interop_threads\<close> raises as well, whatever the hardware concurrency is.
\<close>

theorem launch_unset_assertion:
  "fst (launch True hw f interop_init) = Inl (assertion_failed ''pool->size() == pool_size'')
   \<and> Initialized (snd (launch True hw f interop_init))
   \<and> fst (get_num_interop_threads True hw (snd (launch True hw f interop_init)))
       = Inl (assertion_failed ''pool->size() == pool_size'')"
  using ucast_hw_neq_scast_unset [of hw] ucast_hw_neq_scast_init [of hw]
  by (simp add: launch_def get_pool_def createC10ThreadPool_def interop_init_def Let_def
      get_num_interop_threads_def Initialized_def word_sless_alt)

subsection \<open>Setting the number of inter-op threads\<close>

text \<open>
  Claim C8 as stated: once a value is committed, every later call of
  \<^verbatim>\<open>set_num_interop_threads\<close>, with any value, raises. It fails for the value \<open>0\<close>:
  after \<open>4\<close> has been committed, a call with \<open>0\<close> returns normally and changes
  nothing.
\<close>

theorem set_num_interop_threads_after_commit_zero:
  "UserRequested 4 (snd (set_num_interop_threads 4 (interop_init :: unit interop)))
   \<and> set_num_interop_threads 0 (snd (set_num_interop_threads 4 (interop_init :: unit interop)))
       = (Inr (), snd (set_num_interop_threads 4 interop_init))"
  by (simp add: set_num_interop_threads_def interop_init_def UserRequested_def)

text \<open>
  Claim C8, amended. A call with \<open>0\<close> is ignored in every state. A call with a
  non-zero value raises the runtime error and leaves the state unchanged once a
  value has been committed or the pool has been materialised; in state \<open>Unset\<close> a
  call with \<open>0 < n < 2^31\<close> succeeds and moves the state to \<open>UserRequested n\<close>.
\<close>

theorem set_num_interop_threads_nonzero:
  assumes "nthreads \<noteq> 0"
  shows "(UserRequested m s \<or> Initialized s \<longrightarrow>
            set_num_interop_threads nthreads s =
              (Inl (runtime_error
                 ''Error: cannot set number of interop threads after parallel work has started''), s))
       \<and> (Unset s \<and> unat nthreads < 2 ^ 31 \<longrightarrow>
            fst (set_num_interop_threads nthreads s) = Inr ()
            \<and> UserRequested (unat nthreads) (snd (set_num_interop_threads nthreads s)))
       \<and> set_num_interop_threads 0 s = (Inr (), s)"
proof (intro conjI impI)
  assume "UserRequested m s \<or> Initialized s"
  then have "num_interop_threads s \<noteq> - 1"
    by (auto simp: UserRequested_def Initialized_def)
  then show "set_num_interop_threads nthreads s =
      (Inl (runtime_error
         ''Error: cannot set number of interop threads after parallel work has started''), s)"
    using assms by (simp add: set_num_interop_threads_def)
next
  assume a: "Unset s \<and> unat nthreads < 2 ^ 31"
  then show "fst (set_num_interop_threads nthreads s) = Inr ()"
    using assms by (simp add: set_num_interop_threads_def Unset_def)
  have "0 < unat nthreads"
    using assms by (simp add: unat_gt_0)
  then show "UserRequested (unat nthreads) (snd (set_num_interop_threads nthreads s))"
    using a assms ucast_small_sint [of nthreads]
    by (simp add: set_num_interop_threads_def Unset_def UserRequested_def)
next
  show "set_num_interop_threads 0 s = (Inr (), s)"
    by (simp add: set_num_interop_threads_def)
qed

theorem set_num_interop_threads_nonzero_witness:
  "(7 :: size_t) \<noteq> 0
   \<and> Unset (interop_init :: unit interop) \<and> unat (4 :: size_t) < 2 ^ 31
   \<and> fst (set_num_interop_threads 4 (interop_init :: unit interop)) = Inr ()
   \<and> UserRequested 4 (snd (set_num_interop_threads 4 (interop_init :: unit interop)))
   \<and> fst (set_num_interop_threads 7 (snd (set_num_interop_threads 4 (interop_init :: unit interop))))
       = Inl (runtime_error
           ''Error: cannot set number of interop threads after parallel work has started'')"
proof -
  have n4: "(4 :: size_t) \<noteq> 0" and n7: "(7 :: size_t) \<noteq> 0"
    by simp_all
  have u: "Unset (interop_init :: unit interop)"
    by (simp add: Unset_def interop_init_def)
  have b: "unat (4 :: size_t) < 2 ^ 31"
    by simp
  from set_num_interop_threads_nonzero [OF n4, of 0 "interop_init :: unit interop"] u b
  have s4: "fst (set_num_interop_threads 4 (interop_init :: unit interop)) = Inr ()"
    and r4: "UserRequested 4 (snd (set_num_interop_threads 4 (interop_init :: unit interop)))"
    by simp_all
  from set_num_interop_threads_nonzero
         [OF n7, of 4 "snd (set_num_interop_threads 4 (interop_init :: unit interop))"] r4
  have "set_num_interop_threads 7 (snd (set_num_interop_threads 4 (interop_init :: unit interop)))
        = (Inl (runtime_error
            ''Error: cannot set number of interop threads after parallel work has started''),
           snd (set_num_interop_threads 4 (interop_init :: unit interop)))"
    by blast
  then show ?thesis
    using n7 u b s4 r4 by simp
qed

section \<open>Chunk arithmetic\<close>

subsection \<open>Reading 64-bit words as integers\<close>

lemma sint64_bounds:
  "- 9223372036854775808 \<le> sint (w :: 64 word)" "sint (w :: 64 word) < 9223372036854775808"
  using sint_ge [of w] sint_lt [of w] by simp_all

lemma uint64_bounds:
  "0 \<le> uint (w :: 64 word)" "uint (w :: 64 word) < 18446744073709551616"
  using uint_lt2p [of w] by simp_all

lemma sint_word_of_int_64:
  assumes "- 9223372036854775808 \<le> x" and "x < 9223372036854775808"
  shows "sint (word_of_int x :: 64 word) = x"
proof -
  have "sint (word_of_int x :: 64 word) = signed_take_bit 63 x"
    by (simp add: sint_sbintrunc')
  also have "\<dots> = x"
    using assms by (intro signed_take_bit_int_eq_self) simp_all
  finally show ?thesis .
qed

lemma uint_word_of_int_64:
  assumes "0 \<le> x" and "x < 18446744073709551616"
  shows "uint (word_of_int x :: 64 word) = x"
  using assms by (simp add: uint_word_of_int)

lemma uint_eq_sint_64:
  assumes "0 \<le> sint (w :: 64 word)"
  shows "uint w = sint w"
proof -
  have "uint w = uint (word_of_int (sint w) :: 64 word)"
    by simp
  also have "\<dots> = sint w"
    using assms sint64_bounds(2) [of w] by (intro uint_word_of_int_64) simp_all
  finally show ?thesis .
qed

lemma sint_eq_uint_64:
  assumes "uint (w :: 64 word) < 9223372036854775808"
  shows "sint w = uint w"
proof -
  have "sint w = sint (word_of_int (uint w) :: 64 word)"
    by simp
  also have "\<dots> = uint w"
  proof (rule sint_word_of_int_64)
    show "- 9223372036854775808 \<le> uint w"
      using uint64_bounds(1) [of w] by linarith
  qed (rule assms)
  finally show ?thesis .
qed

lemma sint_diff_64:
  assumes "- 9223372036854775808 \<le> sint a - sint b" and "sint a - sint b < 9223372036854775808"
  shows "sint (a - b :: 64 word) = sint a - sint b"
proof -
  have "a - b = word_of_int (sint a - sint b)"
    by simp
  then show ?thesis
    using assms sint_word_of_int_64 by metis
qed

lemma sint_diff_wrapped_64:
  assumes "9223372036854775808 \<le> sint a - sint b"
  shows "sint (a - b :: 64 word) = sint a - sint b - 18446744073709551616"
proof -
  have "a - b = word_of_int (sint a - sint b - 18446744073709551616)"
    by (simp add: word_of_int_2p_len [where 'a = 64, simplified])
  moreover have "sint a - sint b - 18446744073709551616 < 9223372036854775808"
    using sint64_bounds [of a] sint64_bounds [of b] by linarith
  moreover have "- 9223372036854775808 \<le> sint a - sint b - 18446744073709551616"
    using assms by linarith
  ultimately show ?thesis
    using sint_word_of_int_64 by metis
qed

lemma range_no_overflow:
  assumes "lo <s hi" and "0 \<le> sint (hi - lo :: 64 word)"
  shows "sint (hi - lo) = sint hi - sint lo" and "0 < sint (hi - lo)"
proof -
  have pos: "0 < sint hi - sint lo"
    using assms(1) by (simp add: word_sless_alt)
  show eq: "sint (hi - lo) = sint hi - sint lo"
  proof (cases "sint hi - sint lo < 9223372036854775808")
    case True
    with pos show ?thesis by (intro sint_diff_64) linarith+
  next
    case False
    then have "sint (hi - lo) = sint hi - sint lo - 18446744073709551616"
      by (intro sint_diff_wrapped_64) linarith
    with assms(2) sint64_bounds [of hi] sint64_bounds [of lo] show ?thesis by linarith
  qed
  show "0 < sint (hi - lo)" using eq pos by simp
qed


lemma divup_bounds:
  assumes "0 < y"
  shows "x \<le> divup x y * y" and "(divup x y - 1) * y < x"
proof -
  have eq: "y * ((- x) div y) = - x - (- x) mod y"
    by (simp add: minus_mod_eq_mult_div [symmetric])
  have m: "0 \<le> (- x) mod y" "(- x) mod y < y"
    using assms by simp_all
  have "divup x y * y = - (y * ((- x) div y))"
    by (simp add: divup_def algebra_simps)
  then have "divup x y * y = x + (- x) mod y"
    using eq by simp
  then show "x \<le> divup x y * y" and "(divup x y - 1) * y < x"
    using m by (simp_all add: algebra_simps)
qed

lemma divup_unique:
  assumes "0 < y" and "(q - 1) * y < x" and "x \<le> q * y"
  shows "divup x y = q"
proof -
  have a: "(divup x y - 1) * y < q * y"
    using divup_bounds(2) [OF assms(1), of x] assms(3) by linarith
  have b: "(q - 1) * y < divup x y * y"
    using divup_bounds(1) [OF assms(1), of x] assms(2) by linarith
  from a have "divup x y - 1 < q"
    using assms(1) by (simp add: mult_less_cancel_right)
  moreover from b have "q - 1 < divup x y"
    using assms(1) by (simp add: mult_less_cancel_right)
  ultimately show ?thesis by linarith
qed

lemma divup_pos:
  assumes "0 < y" and "0 < x"
  shows "1 \<le> divup x y"
proof (rule ccontr)
  assume "\<not> 1 \<le> divup x y"
  then have "divup x y \<le> 0" by linarith
  then have "divup x y * y \<le> 0"
    using assms(1) by (simp add: mult_le_0_iff)
  with divup_bounds(1) [OF assms(1), of x] assms(2) show False by linarith
qed

lemma divup_le_self:
  assumes "0 < y" and "0 < x"
  shows "divup x y \<le> x"
proof -
  have "(divup x y - 1) * 1 \<le> (divup x y - 1) * y"
    using assms divup_pos [OF assms] by (intro mult_left_mono) simp_all
  then have "divup x y - 1 \<le> (divup x y - 1) * y"
    by simp
  with divup_bounds(2) [OF assms(1), of x] show ?thesis by linarith
qed

lemma divup_ceiling:
  assumes "0 < y"
  shows "divup x y = \<lceil>real_of_int x / real_of_int y\<rceil>"
proof -
  have "\<lceil>real_of_int x / real_of_int y\<rceil> = - \<lfloor>real_of_int (- x) / real_of_int y\<rfloor>"
    by (simp add: ceiling_def)
  also have "\<dots> = - ((- x) div y)"
    by (simp only: floor_divide_of_int_eq)
  finally show ?thesis by (simp add: divup_def)
qed

lemma parallel_case_range:
  assumes "parallel_case t lo hi g"
  shows "sint (hi - lo) = sint hi - sint lo" and "0 < sint hi - sint lo"
    and "0 \<le> sint g" and "sint g \<le> sint hi - sint lo"
proof -
  from assms have lt: "lo <s hi" and g0: "0 \<le> sint g" and gr: "sint g \<le> sint (hi - lo)"
    by (simp_all add: parallel_case_def word_sle_eq)
  then have "0 \<le> sint (hi - lo)" by linarith
  from range_no_overflow [OF lt this] gr g0
  show "sint (hi - lo) = sint hi - sint lo" and "0 < sint hi - sint lo"
    and "0 \<le> sint g" and "sint g \<le> sint hi - sint lo"
    by simp_all
qed

lemma uint_std_max: "uint (std_max a b) = max (uint a) (uint b)"
  by (simp add: std_max_def word_less_alt max_def)

lemma uint_chunk_size:
  assumes "parallel_case t lo hi g"
  shows "uint (chunk_size t lo hi g) = max (sint g) (divup (sint hi - sint lo) (int t))"
    and "1 \<le> uint (chunk_size t lo hi g)"
    and "uint (chunk_size t lo hi g) \<le> sint hi - sint lo"
proof -
  note r = parallel_case_range [OF assms]
  have t: "0 < int t" using assms by (simp add: parallel_case_def)
  let ?d = "divup (sint hi - sint lo) (int t)"
  have d1: "1 \<le> ?d" using divup_pos [OF t r(2)] .
  have d2: "?d \<le> sint hi - sint lo" using divup_le_self [OF t r(2)] .
  have "sint hi - sint lo < 9223372036854775808"
    using r(1) sint64_bounds(2) [of "hi - lo"] by linarith
  then have ud: "uint (word_of_int ?d :: 64 word) = ?d"
    using d1 d2 by (intro uint_word_of_int_64) linarith+
  have ug: "uint g = sint g" using r(3) by (rule uint_eq_sint_64)
  show eq: "uint (chunk_size t lo hi g) = max (sint g) ?d"
    by (simp add: chunk_size_def uint_std_max ud ug r(1))
  show "1 \<le> uint (chunk_size t lo hi g)" using eq d1 by linarith
  show "uint (chunk_size t lo hi g) \<le> sint hi - sint lo" using eq d2 r(4) by linarith
qed

lemma uint_num_tasks:
  assumes "parallel_case t lo hi g" and "c = chunk_size t lo hi g"
  shows "uint (num_tasks lo hi c) = divup (sint hi - sint lo) (uint c)"
    and "1 \<le> uint (num_tasks lo hi c)"
    and "(uint (num_tasks lo hi c) - 1) * uint c < sint hi - sint lo"
    and "sint hi - sint lo \<le> uint (num_tasks lo hi c) * uint c"
proof -
  note r = parallel_case_range [OF assms(1)]
  note c = uint_chunk_size [OF assms(1), folded assms(2)]
  have c0: "0 < uint c" using c(2) by linarith
  let ?d = "divup (sint hi - sint lo) (uint c)"
  have d1: "1 \<le> ?d" using divup_pos [OF c0 r(2)] .
  have d2: "?d \<le> sint hi - sint lo" using divup_le_self [OF c0 r(2)] .
  have "sint hi - sint lo < 9223372036854775808"
    using r(1) sint64_bounds(2) [of "hi - lo"] by linarith
  then have ud: "uint (word_of_int ?d :: 64 word) = ?d"
    using d1 d2 by (intro uint_word_of_int_64) linarith+
  show eq: "uint (num_tasks lo hi c) = ?d"
    by (simp add: num_tasks_def ud r(1))
  show "1 \<le> uint (num_tasks lo hi c)" using eq d1 by linarith
  show "(uint (num_tasks lo hi c) - 1) * uint c < sint hi - sint lo"
    using divup_bounds(2) [OF c0, of "sint hi - sint lo"] eq by simp
  show "sint hi - sint lo \<le> uint (num_tasks lo hi c) * uint c"
    using divup_bounds(1) [OF c0, of "sint hi - sint lo"] eq by simp
qed


lemma local_start_as_int: "local_start lo c k = word_of_int (sint lo + uint k * uint c)"
  by (simp add: local_start_def)

lemma sint_local_start:
  assumes "parallel_case t lo hi g" and "c = chunk_size t lo hi g" and "k < num_tasks lo hi c"
  shows "sint (local_start lo c k) = sint lo + uint k * uint c"
    and "sint (local_start lo c k) < sint hi"
proof -
  note r = parallel_case_range [OF assms(1)]
  note c = uint_chunk_size [OF assms(1), folded assms(2)]
  note n = uint_num_tasks [OF assms(1,2)]
  have "uint k \<le> uint (num_tasks lo hi c) - 1"
    using assms(3) by (simp add: word_less_alt)
  then have "uint k * uint c \<le> (uint (num_tasks lo hi c) - 1) * uint c"
    using c(2) by (intro mult_right_mono) simp_all
  then have lt: "uint k * uint c < sint hi - sint lo"
    using n(3) by linarith
  have ge: "0 \<le> uint k * uint c"
    by simp
  have "sint (word_of_int (sint lo + uint k * uint c) :: 64 word) = sint lo + uint k * uint c"
    using lt ge sint64_bounds [of lo] sint64_bounds [of hi]
    by (intro sint_word_of_int_64) linarith+
  then show eq: "sint (local_start lo c k) = sint lo + uint k * uint c"
    by (simp only: local_start_as_int)
  show "sint (local_start lo c k) < sint hi"
    using eq lt by linarith
qed

lemma local_end_as_int: "local_end hi c ls = std_min hi (word_of_int (sint ls + uint c))"
  by (simp add: local_end_def add.commute)

lemma sint_std_min: "sint (std_min a b) = min (sint a) (sint b)"
  by (simp add: std_min_def word_sless_alt min_def)

lemma sint_local_end:
  assumes "sint ls + uint c < 9223372036854775808"
  shows "sint (local_end hi c ls) = min (sint hi) (sint ls + uint c)"
proof -
  have "sint (word_of_int (sint ls + uint c) :: 64 word) = sint ls + uint c"
    using assms sint64_bounds(1) [of ls] uint64_bounds(1) [of c]
    by (intro sint_word_of_int_64) linarith+
  then show ?thesis
    by (simp add: local_end_as_int sint_std_min)
qed

lemma sint_local_end_wrapped:
  assumes "9223372036854775808 \<le> sint ls + uint c" and "uint c < 9223372036854775808"
    and "sint ls < sint hi"
  shows "sint (local_end hi c ls) = sint ls + uint c - 18446744073709551616"
    and "sint (local_end hi c ls) < sint ls"
proof -
  have A: "(word_of_int (sint ls + uint c) :: 64 word)
        = word_of_int (sint ls + uint c - 18446744073709551616)"
    by (simp add: word_of_int_2p_len [where 'a = 64, simplified])
  have B: "sint (word_of_int (sint ls + uint c - 18446744073709551616) :: 64 word)
        = sint ls + uint c - 18446744073709551616"
    using assms sint64_bounds(2) [of ls]
    by (intro sint_word_of_int_64) linarith+
  have w: "sint (word_of_int (sint ls + uint c) :: 64 word)
        = sint ls + uint c - 18446744073709551616"
    by (subst A) (rule B)
  have lt: "sint ls + uint c - 18446744073709551616 < sint hi"
    using assms sint64_bounds [of ls] by linarith
  have "sint (local_end hi c ls)
        = min (sint hi) (sint (word_of_int (sint ls + uint c) :: 64 word))"
    by (simp only: local_end_as_int sint_std_min)
  also have "\<dots> = sint ls + uint c - 18446744073709551616"
    unfolding w using lt by simp
  finally show eq: "sint (local_end hi c ls) = sint ls + uint c - 18446744073709551616" .
  show "sint (local_end hi c ls) < sint ls"
    using eq assms(2) by linarith
qed

section \<open>The branches that do not fork\<close>

text \<open>
  Claim C5. With \<open>begin \<ge> end\<close>, whatever the grain size, the schedule and the
  contexts are, \<^verbatim>\<open>parallel_for\<close> returns normally and \<^verbatim>\<open>parallel_reduce\<close> returns
  \<open>ident\<close>; the state is the one before the call, with no invocation of the body
  logged.
\<close>

theorem empty_range_returns:
  assumes "hi \<le>s lo"
  shows "parallel_for num_threads sched ctx wctx lo hi grain_size f
           = (Some (Inr ()), before_call ctx wctx)
       \<and> parallel_reduce num_threads sched ctx wctx dflt lo hi grain_size ident g sf
           = (Some (Inr ident), before_call ctx wctx)
       \<and> calls (snd (parallel_for num_threads sched ctx wctx lo hi grain_size f)) = []
       \<and> calls (snd (parallel_reduce num_threads sched ctx wctx dflt lo hi grain_size ident g sf)) = []"
  using assms by (simp add: parallel_for_def parallel_reduce_def before_call_def)

theorem empty_range_returns_witness:
  "(3 :: int64_t) \<le>s 5
   \<and> fst (parallel_for 4 [] \<lparr>in_parallel_region = False, thread_num = None\<rparr> [] 5 3 (- 1)
          (\<lambda>_ _. Inl () :: unit + unit)) = Some (Inr ())
   \<and> fst (parallel_reduce 4 [] \<lparr>in_parallel_region = False, thread_num = None\<rparr> [] (0 :: int) 5 3 (- 1) 42
          (\<lambda>_ _ _. Inl () :: unit + int) (+)) = Some (Inr 42)"
proof -
  have h: "(3 :: int64_t) \<le>s 5"
    by (simp add: word_sle_eq)
  from empty_range_returns [OF h, of 4 "[]" "\<lparr>in_parallel_region = False, thread_num = None\<rparr>" "[]"
      "- 1" "\<lambda>_ _. Inl () :: unit + unit" "0 :: int" 42 "\<lambda>_ _ _. Inl () :: unit + int" "(+)"]
  show ?thesis
    using h by simp
qed

text \<open>
  Claim C6 as stated: every call with a negative grain size fails. It does not
  when the range is empty, because the test of the range comes first: with
  \<open>begin = end = 0\<close> and grain size \<open>-1\<close> both primitives return normally.
\<close>

theorem negative_grain_size_empty_range:
  "(- 1 :: int64_t) <s 0
   \<and> fst (parallel_for 4 [] \<lparr>in_parallel_region = False, thread_num = None\<rparr> [] 0 0 (- 1)
          (\<lambda>_ _. Inr () :: unit + unit)) = Some (Inr ())
   \<and> fst (parallel_reduce 4 [] \<lparr>in_parallel_region = False, thread_num = None\<rparr> [] (0 :: int) 0 0 (- 1) 0
          (\<lambda>_ _ v. Inr v :: unit + int) (+)) = Some (Inr 0)"
  by (simp add: parallel_for_def parallel_reduce_def word_sless_alt)

text \<open>
  Claim C6, amended. With \<open>begin < end\<close> and a negative grain size both primitives
  raise the runtime error of the engine, and the state is the one before the call:
  nothing was dispatched and the body was not invoked.
\<close>

theorem negative_grain_size_raises:
  assumes "lo <s hi" and "grain_size <s 0"
  shows "parallel_for num_threads sched ctx wctx lo hi grain_size f
           = (Some (Inl (Engine (runtime_error
                ''Invalid begin, end or grain_size in parallel_for''))), before_call ctx wctx)
       \<and> parallel_reduce num_threads sched ctx wctx dflt lo hi grain_size ident g sf
           = (Some (Inl (Engine (runtime_error
                ''Invalid begin, end or grain_size in parallel_reduce''))), before_call ctx wctx)
       \<and> calls (snd (parallel_for num_threads sched ctx wctx lo hi grain_size f)) = []
       \<and> calls (snd (parallel_reduce num_threads sched ctx wctx dflt lo hi grain_size ident g sf)) = []"
proof -
  have "\<not> hi \<le>s lo"
    using assms(1) by (simp add: word_sless_alt word_sle_eq)
  then show ?thesis
    using assms(2) by (simp add: parallel_for_def parallel_reduce_def before_call_def)
qed

theorem negative_grain_size_raises_witness:
  "(0 :: int64_t) <s 10 \<and> (- 1 :: int64_t) <s 0
   \<and> fst (parallel_for 4 [] \<lparr>in_parallel_region = False, thread_num = None\<rparr> [] 0 10 (- 1)
          (\<lambda>_ _. Inr () :: unit + unit))
       = Some (Inl (Engine (runtime_error ''Invalid begin, end or grain_size in parallel_for'')))
   \<and> fst (parallel_reduce 4 [] \<lparr>in_parallel_region = False, thread_num = None\<rparr> [] (0 :: int) 0 10 (- 1) 0
          (\<lambda>_ _ v. Inr v :: unit + int) (+))
       = Some (Inl (Engine (runtime_error ''Invalid begin, end or grain_size in parallel_reduce'')))"
proof -
  have h1: "(0 :: int64_t) <s 10" and h2: "(- 1 :: int64_t) <s 0"
    by (simp_all add: word_sless_alt)
  from negative_grain_size_raises [OF h1 h2, of 4 "[]" "\<lparr>in_parallel_region = False, thread_num = None\<rparr>" "[]"
      "\<lambda>_ _. Inr () :: unit + unit" "0 :: int" 0 "\<lambda>_ _ v. Inr v :: unit + int" "(+)"]
  show ?thesis
    using h1 h2 by simp
qed

text \<open>
  Claim C4. With \<open>begin < end\<close> and a grain size that is not negative, when the
  range is shorter than the grain size or the calling thread is inside a parallel
  region, the body is invoked once, directly, with \<open>(begin, end)\<close> on the calling
  thread, and its outcome is the outcome of the call. Nothing else changes: no
  closure is submitted, no future is created, the results buffer is not
  allocated and the context the body sees is the context of the caller, which
  the engine leaves as it was.
\<close>

theorem sequential_branch_direct_call:
  assumes "lo <s hi" and "0 \<le>s grain_size"
    and "sint hi - sint lo < sint grain_size \<or> in_parallel_region ctx"
  shows "parallel_for num_threads sched ctx wctx lo hi grain_size f
           = (Some (case f lo hi of Inl e \<Rightarrow> Inl (Thrown e) | Inr u \<Rightarrow> Inr ()),
              \<lparr>caller_pc = Sequential, caller_ctx = ctx, worker_ctx = wctx,
               closures = (\<lambda>_. Unsubmitted), futures = (\<lambda>_. None),
               err_flag = False, eptr = None, results = [],
               calls = [\<lparr>call_thread = None, call_ctx = ctx, call_task = None,
                         call_start = lo, call_end = hi\<rparr>],
               claimed = []\<rparr>)
       \<and> parallel_reduce num_threads sched ctx wctx dflt lo hi grain_size ident g sf
           = (Some (case g lo hi ident of Inl e \<Rightarrow> Inl (Thrown e) | Inr v \<Rightarrow> Inr v),
              \<lparr>caller_pc = Sequential, caller_ctx = ctx, worker_ctx = wctx,
               closures = (\<lambda>_. Unsubmitted), futures = (\<lambda>_. None),
               err_flag = False, eptr = None, results = [],
               calls = [\<lparr>call_thread = None, call_ctx = ctx, call_task = None,
                         call_start = lo, call_end = hi\<rparr>],
               claimed = []\<rparr>)"
proof -
  have ne: "\<not> hi \<le>s lo"
    using assms(1) by (simp add: word_sless_alt word_sle_eq)
  have g0: "\<not> grain_size <s 0"
    using assms(2) by (simp add: word_sless_alt word_sle_eq)
  have br: "\<not> (grain_size \<le>s hi - lo \<and> \<not> in_parallel_region ctx)"
  proof (cases "in_parallel_region ctx")
    case True
    then show ?thesis by simp
  next
    case False
    with assms(3) have short: "sint hi - sint lo < sint grain_size"
      by simp
    have "0 < sint hi - sint lo"
      using assms(1) by (simp add: word_sless_alt)
    then have "sint (hi - lo) = sint hi - sint lo"
      using short sint64_bounds(2) [of grain_size] by (intro sint_diff_64) linarith+
    then show ?thesis
      using short by (simp add: word_sle_eq)
  qed
  show ?thesis
    unfolding parallel_for_def parallel_reduce_def Let_def
      if_not_P [OF ne] if_not_P [OF g0] if_not_P [OF br]
    by (simp add: before_call_def split: sum.split)
qed

theorem sequential_branch_direct_call_witness:
  "(0 :: int64_t) <s 10 \<and> (0 :: int64_t) \<le>s 20
   \<and> (sint (10 :: int64_t) - sint (0 :: int64_t) < sint (20 :: int64_t)
        \<or> in_parallel_region \<lparr>in_parallel_region = False, thread_num = None\<rparr>)
   \<and> calls (snd (parallel_for 4 [] \<lparr>in_parallel_region = False, thread_num = None\<rparr> [] 0 10 20
          (\<lambda>_ _. Inr () :: unit + unit)))
       = [\<lparr>call_thread = None, call_ctx = \<lparr>in_parallel_region = False, thread_num = None\<rparr>,
           call_task = None, call_start = 0, call_end = 10\<rparr>]
   \<and> fst (parallel_reduce 4 [] \<lparr>in_parallel_region = True, thread_num = Some 2\<rparr> [] (0 :: int) 0 10 1 0
          (\<lambda>a b v. Inr (v + (sint b - sint a)) :: unit + int) (+)) = Some (Inr 10)"
proof -
  have h1: "(0 :: int64_t) <s 10" and h2: "(0 :: int64_t) \<le>s 20" and h2': "(0 :: int64_t) \<le>s 1"
    by (simp_all add: word_sless_alt word_sle_eq)
  have h3: "sint (10 :: int64_t) - sint (0 :: int64_t) < sint (20 :: int64_t)
        \<or> in_parallel_region \<lparr>in_parallel_region = False, thread_num = None\<rparr>"
    by simp
  have h4: "sint (10 :: int64_t) - sint (0 :: int64_t) < sint (1 :: int64_t)
        \<or> in_parallel_region \<lparr>in_parallel_region = True, thread_num = Some 2\<rparr>"
    by simp
  from sequential_branch_direct_call [OF h1 h2 h3, of 4 "[]" "[]" "\<lambda>_ _. Inr () :: unit + unit"
      "0 :: int" 0 "\<lambda>a b v. Inr (v + (sint b - sint a)) :: unit + int" "(+)"]
  have a: "calls (snd (parallel_for 4 [] \<lparr>in_parallel_region = False, thread_num = None\<rparr> [] 0 10 20
          (\<lambda>_ _. Inr () :: unit + unit)))
       = [\<lparr>call_thread = None, call_ctx = \<lparr>in_parallel_region = False, thread_num = None\<rparr>,
           call_task = None, call_start = 0, call_end = 10\<rparr>]"
    by simp
  from sequential_branch_direct_call [OF h1 h2' h4, of 4 "[]" "[]" "\<lambda>_ _. Inr () :: unit + unit" "0 :: int" 0
      "\<lambda>a b v. Inr (v + (sint b - sint a)) :: unit + int" "(+)"]
  have b: "fst (parallel_reduce 4 [] \<lparr>in_parallel_region = True, thread_num = Some 2\<rparr> [] (0 :: int) 0 10 1 0
          (\<lambda>a b v. Inr (v + (sint b - sint a)) :: unit + int) (+)) = Some (Inr 10)"
    by simp
  show ?thesis
    using h1 h2 h3 a b by blast
qed

section \<open>Runs of the parallel branch\<close>

subsection \<open>The steps, case by case\<close>

lemma local_start_0 [simp]: "local_start lo c 0 = lo"
  by (simp add: local_start_def)

lemma frame_of_simps [simp]:
  "fr_task_id (frame_of L k) = k"
  "fr_start (frame_of L k) = local_start (l_begin L) (l_chunk_size L) k"
  "fr_end (frame_of L k) = local_end (l_end L) (l_chunk_size L) (local_start (l_begin L) (l_chunk_size L) k)"
  by (simp_all add: frame_of_def)

lemma frame_of_0:
  "\<lparr>fr_task_id = 0, fr_start = l_begin L,
    fr_end = local_end (l_end L) (l_chunk_size L) (l_begin L)\<rparr> = frame_of L 0"
  by (simp add: frame_of_def)

lemma task_step_cases [consumes 2, case_names enter ret throw lose win store leave]:
  assumes "task_step L who fr pc ctx s = (pc', ctx', s')" and "pc \<noteq> Return"
  obtains
    "pc = Enter" "pc' = Body" "s' = s"
      "ctx' = set_in_parallel_region True (set_thread_num (fr_task_id fr) ctx)"
  | v where "pc = Body" "pc' = Leave" "ctx' = ctx" "l_body L (fr_start fr) (fr_end fr) = Inr v"
      "s' = s\<lparr>calls := calls s @ [\<lparr>call_thread = who, call_ctx = ctx,
                 call_task = Some (fr_task_id fr), call_start = fr_start fr, call_end = fr_end fr\<rparr>],
               results := l_store L (fr_task_id fr) v (results s)\<rparr>"
  | e where "pc = Body" "pc' = Catch e" "ctx' = ctx" "l_body L (fr_start fr) (fr_end fr) = Inl e"
      "s' = s\<lparr>calls := calls s @ [\<lparr>call_thread = who, call_ctx = ctx,
                 call_task = Some (fr_task_id fr), call_start = fr_start fr, call_end = fr_end fr\<rparr>]\<rparr>"
  | e where "pc = Catch e" "pc' = Leave" "ctx' = ctx" "err_flag s"
      "s' = s\<lparr>claimed := claimed s @ [fr_task_id fr]\<rparr>"
  | e where "pc = Catch e" "pc' = Store e" "ctx' = ctx" "\<not> err_flag s"
      "s' = s\<lparr>claimed := claimed s @ [fr_task_id fr], err_flag := True\<rparr>"
  | e where "pc = Store e" "pc' = Leave" "ctx' = ctx" "s' = s\<lparr>eptr := Some e\<rparr>"
  | "pc = Leave" "pc' = Return" "s' = s"
      "ctx' = unset_thread_num (set_in_parallel_region False ctx)"
proof (cases pc)
  case Enter
  with assms(1) show ?thesis
    by (intro that(1)) (simp_all add: task_step_def)
next
  case Body
  show ?thesis
  proof (cases "l_body L (fr_start fr) (fr_end fr)")
    case (Inl e)
    with Body assms(1) show ?thesis
      by (intro that(3) [of e]) (auto simp: task_step_def Let_def)
  next
    case (Inr v)
    with Body assms(1) show ?thesis
      by (intro that(2) [of v]) (auto simp: task_step_def Let_def)
  qed
next
  case (Catch e)
  show ?thesis
  proof (cases "err_flag s")
    case True
    with Catch assms(1) show ?thesis
      by (intro that(4) [of e]) (auto simp: task_step_def Let_def)
  next
    case False
    with Catch assms(1) show ?thesis
      by (intro that(5) [of e]) (auto simp: task_step_def Let_def)
  qed
next
  case (Store e)
  with assms(1) show ?thesis
    by (intro that(6) [of e]) (auto simp: task_step_def)
next
  case Leave
  with assms(1) show ?thesis
    by (intro that(7)) (simp_all add: task_step_def)
next
  case Return
  with assms(2) show ?thesis by simp
qed

lemma caller_step_cases
  [case_names stay dispatch fallback start0 task0 towait wait joined]:
  obtains
    "caller_step L s = s"
  | j where "caller_pc s = Dispatch j" "j < l_num_tasks L"
      "local_start (l_begin L) (l_chunk_size L) j <s l_end L"
      "caller_step L s = s\<lparr>futures := (futures s)(j := Some Pending),
                             closures := (closures s)(j := Queued (frame_of L j)),
                             caller_pc := Dispatch (j + 1)\<rparr>"
  | j where "caller_pc s = Dispatch j" "j < l_num_tasks L"
      "\<not> local_start (l_begin L) (l_chunk_size L) j <s l_end L"
      "caller_step L s = s\<lparr>futures := (futures s)(j := Some Completed),
                             caller_pc := Dispatch (j + 1)\<rparr>"
  | j where "caller_pc s = Dispatch j" "\<not> j < l_num_tasks L"
      "caller_step L s = s\<lparr>caller_pc := Task0 Enter\<rparr>"
  | pc pc' ctx' s' where "caller_pc s = Task0 pc" "pc \<noteq> Return"
      "task_step L None (frame_of L 0) pc (caller_ctx s) s = (pc', ctx', s')"
      "caller_step L s = s'\<lparr>caller_pc := Task0 pc', caller_ctx := ctx'\<rparr>"
  | "caller_pc s = Task0 Return" "caller_step L s = s\<lparr>caller_pc := Wait 1\<rparr>"
  | j where "caller_pc s = Wait j" "j < l_num_tasks L" "futures s j = Some Completed"
      "caller_step L s = s\<lparr>caller_pc := Wait (j + 1)\<rparr>"
  | j where "caller_pc s = Wait j" "\<not> j < l_num_tasks L"
      "caller_step L s = s\<lparr>caller_pc := Joined\<rparr>"
proof (cases "caller_pc s")
  case Sequential
  then show ?thesis by (intro that(1)) (simp add: caller_step_def)
next
  case (Dispatch j)
  show ?thesis
  proof (cases "j < l_num_tasks L")
    case False
    with Dispatch show ?thesis
      by (intro that(4) [of j]) (simp_all add: caller_step_def)
  next
    case True
    show ?thesis
    proof (cases "local_start (l_begin L) (l_chunk_size L) j <s l_end L")
      case True
      with Dispatch \<open>j < l_num_tasks L\<close> show ?thesis
        by (intro that(2) [of j]) (simp_all add: caller_step_def Let_def frame_of_def)
    next
      case False
      with Dispatch \<open>j < l_num_tasks L\<close> show ?thesis
        by (intro that(3) [of j]) (simp_all add: caller_step_def Let_def)
    qed
  qed
next
  case (Task0 pc)
  show ?thesis
  proof (cases "pc = Return")
    case True
    with Task0 show ?thesis
      by (intro that(6)) (simp_all add: caller_step_def)
  next
    case False
    obtain pc' ctx' s' where
      ts: "task_step L None (frame_of L 0) pc (caller_ctx s) s = (pc', ctx', s')"
      by (cases "task_step L None (frame_of L 0) pc (caller_ctx s) s") auto
    with Task0 False show ?thesis
      by (intro that(5) [of pc pc' ctx' s']) (simp_all add: caller_step_def frame_of_0)
  qed
next
  case (Wait j)
  show ?thesis
  proof (cases "j < l_num_tasks L")
    case False
    with Wait show ?thesis
      by (intro that(8) [of j]) (simp_all add: caller_step_def)
  next
    case True
    show ?thesis
    proof (cases "futures s j = Some Completed")
      case True
      with Wait \<open>j < l_num_tasks L\<close> show ?thesis
        by (intro that(7) [of j]) (simp_all add: caller_step_def)
    next
      case False
      with Wait \<open>j < l_num_tasks L\<close> show ?thesis
        by (intro that(1)) (simp_all add: caller_step_def)
    qed
  qed
next
  case Joined
  then show ?thesis by (intro that(1)) (simp add: caller_step_def)
qed

lemma worker_step_cases [case_names stay take work mark]:
  obtains
    "worker_step L w k s = s"
  | fr where "w < length (worker_ctx s)" "closures s k = Queued fr" "idle L w s"
      "worker_step L w k s = s\<lparr>closures := (closures s)(k := Running w fr Enter)\<rparr>"
  | fr pc pc' ctx' s' where "w < length (worker_ctx s)" "closures s k = Running w fr pc"
      "pc \<noteq> Return"
      "task_step L (Some w) fr pc (worker_ctx s ! w) s = (pc', ctx', s')"
      "worker_step L w k s = s'\<lparr>closures := (closures s')(k := Running w fr pc'),
                                 worker_ctx := (worker_ctx s')[w := ctx']\<rparr>"
  | fr where "w < length (worker_ctx s)" "closures s k = Running w fr Return"
      "worker_step L w k s = s\<lparr>closures := (closures s)(k := Finished),
                                futures := (futures s)(k := Some Completed)\<rparr>"
proof (cases "w < length (worker_ctx s)")
  case False
  then show ?thesis using that(1) by (simp add: worker_step_def)
next
  case True
  show ?thesis
  proof (cases "closures s k")
    case Unsubmitted
    with True show ?thesis using that(1) by (simp add: worker_step_def)
  next
    case (Queued fr)
    with True show ?thesis
      using that(1) that(2) [of fr] by (cases "idle L w s") (simp_all add: worker_step_def)
  next
    case (Running w' fr pc)
    show ?thesis
    proof (cases "w' = w")
      case False
      with True Running show ?thesis using that(1) by (simp add: worker_step_def)
    next
      case w: True
      show ?thesis
      proof (cases "pc = Return")
        case True
        with \<open>w < length (worker_ctx s)\<close> Running w show ?thesis
          using that(4) [of fr] by (simp add: worker_step_def)
      next
        case False
        obtain pc' ctx' s' where
          ts: "task_step L (Some w) fr pc (worker_ctx s ! w) s = (pc', ctx', s')"
          by (cases "task_step L (Some w) fr pc (worker_ctx s ! w) s") auto
        with True Running w False show ?thesis
          using that(3) [of fr pc pc' ctx' s'] by (simp add: worker_step_def)
      qed
    qed
  next
    case Finished
    with True show ?thesis using that(1) by (simp add: worker_step_def)
  qed
qed

subsection \<open>Program counters, closures and futures\<close>

lemma word_succ_facts:
  fixes j n :: "64 word"
  assumes "j < n"
  shows "j + 1 \<le> n" and "j < j + 1" and "j \<le> j + 1" and "k < j + 1 \<longleftrightarrow> k \<le> j"
    and "j + 1 \<le> k \<longleftrightarrow> j < k" and "1 \<le> j + 1"
proof -
  have "unat j < unat n"
    using assms by (simp add: word_less_nat_alt)
  moreover have "unat n < 2 ^ LENGTH(64)"
    by (rule unsigned_less)
  ultimately have "unat j + unat (1 :: 64 word) < 2 ^ LENGTH(64)"
    by simp
  then have "unat (j + 1) = unat j + unat (1 :: 64 word)"
    by (rule unat_add_lem [THEN iffD1])
  then have u: "unat (j + 1) = Suc (unat j)"
    by simp
  show "j + 1 \<le> n" using assms by (rule inc_le)
  show "j < j + 1" by (simp add: word_less_nat_alt u)
  show "j \<le> j + 1" by (simp add: word_le_nat_alt u)
  show "k < j + 1 \<longleftrightarrow> k \<le> j" by (auto simp: word_less_nat_alt word_le_nat_alt u)
  show "j + 1 \<le> k \<longleftrightarrow> j < k" by (auto simp: word_less_nat_alt word_le_nat_alt u)
  show "1 \<le> j + 1" by (simp add: word_le_nat_alt u)
qed

lemma runs_on_simps [simp]:
  "runs_on w Unsubmitted = False"
  "runs_on w (Queued fr) = False"
  "runs_on w (Running w' fr pc) = (w' = w)"
  "runs_on w Finished = False"
  by (simp_all add: runs_on_def)

lemma inv_pc_step:
  assumes "plan_ok L" and "structure_inv L W s"
  shows "inv_pc L (step L a s)"
proof (cases a)
  case Caller
  from assms(2) have pc: "inv_pc L s" and cl: "inv_closures L W s" and fu: "inv_futures s"
    by (simp_all add: structure_inv_def)
  have "inv_pc L (caller_step L s)"
  proof (cases L s rule: caller_step_cases)
    case stay
    with pc show ?thesis by simp
  next
    case (dispatch j)
    with pc have "1 \<le> j" and "\<forall>k. j \<le> k \<longrightarrow> closures s k = Unsubmitted"
      by (simp_all add: inv_pc_def)
    with dispatch word_succ_facts [OF dispatch(2)] show ?thesis
      by (auto simp: inv_pc_def)
  next
    case (fallback j)
    with pc have "1 \<le> j" by (simp add: inv_pc_def)
    with fallback assms(1) show ?thesis by (simp add: plan_ok_def)
  next
    case (start0 j)
    then show ?thesis by (simp add: inv_pc_def)
  next
    case (task0 pc pc' ctx' s')
    from task0(3,2) have "closures s' = closures s"
      by (cases rule: task_step_cases) simp_all
    with task0 show ?thesis by (simp add: inv_pc_def)
  next
    case towait
    with assms(1) show ?thesis by (auto simp: inv_pc_def plan_ok_def)
  next
    case (wait j)
    with pc have j: "1 \<le> j" and fin: "\<forall>k. 1 \<le> k \<and> k < j \<longrightarrow> closures s k = Finished"
      by (simp_all add: inv_pc_def)
    from wait fu have "closures s j = Finished" by (simp add: inv_futures_def)
    with wait j fin word_succ_facts [OF wait(2)] show ?thesis
      by (auto simp: inv_pc_def order_le_less)
  next
    case (joined j)
    with pc have "j = l_num_tasks L" and "\<forall>k. 1 \<le> k \<and> k < j \<longrightarrow> closures s k = Finished"
      by (auto simp: inv_pc_def)
    with joined show ?thesis by (simp add: inv_pc_def)
  qed
  then show ?thesis by (simp add: Caller step_def)
next
  case (Worker w k)
  from assms(2) have pc: "inv_pc L s" and cl: "inv_closures L W s" and fu: "inv_futures s"
    by (simp_all add: structure_inv_def)
  have "inv_pc L (worker_step L w k s)"
  proof (cases L w k s rule: worker_step_cases)
    case stay
    with pc show ?thesis by simp
  next
    case (take fr)
    with pc show ?thesis by (auto simp: inv_pc_def)
  next
    case (work fr pc0 pc' ctx' s')
    from work(4,3) have "closures s' = closures s" and "caller_pc s' = caller_pc s"
      by (cases rule: task_step_cases; simp)+
    with work pc show ?thesis by (auto simp: inv_pc_def)
  next
    case (mark fr)
    with pc show ?thesis by (auto simp: inv_pc_def)
  qed
  then show ?thesis by (simp add: Worker step_def)
qed


lemma task_step_frame_conj:
  assumes "task_step L who fr pc ctx s = (pc', ctx', s')"
  shows "closures s' = closures s \<and> futures s' = futures s \<and>
        caller_pc s' = caller_pc s \<and> worker_ctx s' = worker_ctx s \<and> caller_ctx s' = caller_ctx s"
proof (cases "pc = Return")
  case True
  with assms show ?thesis
    by (simp add: task_step_def)
next
  case False
  with assms show ?thesis
    by (cases rule: task_step_cases) simp_all
qed

lemma task_step_frame:
  assumes "task_step L who fr pc ctx s = (pc', ctx', s')"
  shows "closures s' = closures s" and "futures s' = futures s"
    and "caller_pc s' = caller_pc s" and "worker_ctx s' = worker_ctx s"
    and "caller_ctx s' = caller_ctx s"
  using task_step_frame_conj [OF assms] by simp_all

lemma mem_task_ids:
  assumes "1 \<le> k" and "k < l_num_tasks L"
  shows "k \<in> set (task_ids L)"
proof -
  have "1 \<le> unat k" and "unat k < unat (l_num_tasks L)"
    using assms by (simp_all add: word_le_nat_alt word_less_nat_alt)
  then have "unat k \<in> set [1 ..< unat (l_num_tasks L)]"
    by simp
  then have "(of_nat (unat k) :: 64 word) \<in> of_nat ` set [1 ..< unat (l_num_tasks L)]"
    by (rule imageI)
  then show ?thesis
    by (simp add: task_ids_def)
qed

lemma idle_no_runner:
  assumes "inv_closures L W s" and "idle L w s"
  shows "\<not> runs_on w (closures s k)"
proof
  assume r: "runs_on w (closures s k)"
  then have "closures s k \<noteq> Unsubmitted"
    by (auto simp: runs_on_def)
  with assms(1) have "1 \<le> k" and "k < l_num_tasks L"
    by (simp_all add: inv_closures_def)
  then have "k \<in> set (task_ids L)"
    by (rule mem_task_ids)
  with assms(2) r show False
    by (simp add: idle_def list_all_iff)
qed

lemma inv_closuresI:
  assumes "length (worker_ctx s) = W"
    and "\<And>k. closures s k \<noteq> Unsubmitted \<Longrightarrow> 1 \<le> k \<and> k < l_num_tasks L"
    and "\<And>k fr. closures s k = Queued fr \<Longrightarrow> fr = frame_of L k"
    and "\<And>k w fr pc. closures s k = Running w fr pc \<Longrightarrow> fr = frame_of L k \<and> w < W"
    and "\<And>k k' w. runs_on w (closures s k) \<Longrightarrow> runs_on w (closures s k') \<Longrightarrow> k = k'"
  shows "inv_closures L W s"
  unfolding inv_closures_def using assms by blast

lemma inv_closuresD:
  assumes "inv_closures L W s"
  shows "length (worker_ctx s) = W"
    and "closures s k \<noteq> Unsubmitted \<Longrightarrow> 1 \<le> k \<and> k < l_num_tasks L"
    and "closures s k = Queued fr \<Longrightarrow> fr = frame_of L k"
    and "closures s k = Running w fr pc \<Longrightarrow> fr = frame_of L k \<and> w < W"
    and "runs_on w (closures s k) \<Longrightarrow> runs_on w (closures s k') \<Longrightarrow> k = k'"
  using assms unfolding inv_closures_def by blast+

lemma inv_closures_cong:
  assumes "inv_closures L W s" and "closures s' = closures s"
    and "length (worker_ctx s') = length (worker_ctx s)"
  shows "inv_closures L W s'"
  using assms unfolding inv_closures_def by simp

lemma inv_closures_update:
  assumes cl: "inv_closures L W s"
    and c: "c = Queued (frame_of L k) \<or> c = Finished \<or> (\<exists>pc. c = Running w (frame_of L k) pc \<and> w < W)"
    and k: "1 \<le> k" "k < l_num_tasks L"
    and ex: "\<And>k'. runs_on w (closures s k') \<Longrightarrow> k' = k"
    and len: "length (worker_ctx s') = length (worker_ctx s)"
    and s': "closures s' = (closures s)(k := c)"
  shows "inv_closures L W s'"
proof (rule inv_closuresI)
  show "length (worker_ctx s') = W"
    using len inv_closuresD(1) [OF cl] by simp
next
  fix k'
  assume "closures s' k' \<noteq> Unsubmitted"
  then show "1 \<le> k' \<and> k' < l_num_tasks L"
    using k inv_closuresD(2) [OF cl, of k'] by (cases "k' = k") (simp_all add: s')
next
  fix k' fr
  assume "closures s' k' = Queued fr"
  then show "fr = frame_of L k'"
    using c inv_closuresD(3) [OF cl, of k' fr] by (cases "k' = k") (auto simp: s')
next
  fix k' w' fr pc
  assume "closures s' k' = Running w' fr pc"
  then show "fr = frame_of L k' \<and> w' < W"
    using c inv_closuresD(4) [OF cl, of k' w' fr pc] by (cases "k' = k") (auto simp: s')
next
  fix k1 k2 w'
  assume r1: "runs_on w' (closures s' k1)" and r2: "runs_on w' (closures s' k2)"
  show "k1 = k2"
  proof (cases "k1 = k")
    case k1: True
    show ?thesis
    proof (cases "k2 = k")
      case True
      with k1 show ?thesis by simp
    next
      case False
      from r1 k1 c have "w' = w" by (auto simp: s')
      with r2 False ex [of k2] show ?thesis by (simp add: s')
    qed
  next
    case k1: False
    show ?thesis
    proof (cases "k2 = k")
      case True
      from r2 True c have "w' = w" by (auto simp: s')
      with r1 k1 ex [of k1] show ?thesis by (simp add: s')
    next
      case False
      with k1 r1 r2 inv_closuresD(5) [OF cl, of w' k1 k2] show ?thesis
        by (simp add: s')
    qed
  qed
qed

lemma inv_closures_step:
  assumes "structure_inv L W s"
  shows "inv_closures L W (step L a s)"
proof (cases a)
  case Caller
  from assms have pc: "inv_pc L s" and cl: "inv_closures L W s"
    by (simp_all add: structure_inv_def)
  have "inv_closures L W (caller_step L s)"
  proof (cases L s rule: caller_step_cases)
    case stay
    with cl show ?thesis by simp
  next
    case (dispatch j)
    with pc have j: "1 \<le> j" and un: "closures s j = Unsubmitted"
      by (simp_all add: inv_pc_def)
    show ?thesis
    proof (rule inv_closures_update [OF cl _ j dispatch(2)])
      show "Queued (frame_of L j) = Queued (frame_of L j) \<or> Queued (frame_of L j) = Finished \<or>
            (\<exists>pc. Queued (frame_of L j) = Running W (frame_of L j) pc \<and> W < W)"
        by simp
      show "\<And>k'. runs_on W (closures s k') \<Longrightarrow> k' = j"
        using inv_closuresD(4) [OF cl] by (auto simp: runs_on_def split: closure.splits)
    qed (simp_all add: dispatch(4))
  next
    case (fallback j)
    with cl show ?thesis by (intro inv_closures_cong [OF cl]) simp_all
  next
    case (start0 j)
    with cl show ?thesis by (intro inv_closures_cong [OF cl]) simp_all
  next
    case (task0 pc pc' ctx' s')
    with cl task_step_frame [OF task0(3)] show ?thesis
      by (intro inv_closures_cong [OF cl]) simp_all
  next
    case towait
    with cl show ?thesis by (intro inv_closures_cong [OF cl]) simp_all
  next
    case (wait j)
    with cl show ?thesis by (intro inv_closures_cong [OF cl]) simp_all
  next
    case (joined j)
    with cl show ?thesis by (intro inv_closures_cong [OF cl]) simp_all
  qed
  then show ?thesis by (simp add: Caller step_def)
next
  case (Worker w k)
  from assms have pc: "inv_pc L s" and cl: "inv_closures L W s"
    by (simp_all add: structure_inv_def)
  have "inv_closures L W (worker_step L w k s)"
  proof (cases L w k s rule: worker_step_cases)
    case stay
    with cl show ?thesis by simp
  next
    case (take fr)
    from idle_no_runner [OF cl take(3)] have free: "\<And>k'. \<not> runs_on w (closures s k')" .
    from take(2) have ne: "closures s k \<noteq> Unsubmitted" by simp
    note k = inv_closuresD(2) [OF cl ne]
    have fr: "fr = frame_of L k" using inv_closuresD(3) [OF cl take(2)] .
    have w: "w < W" using take(1) inv_closuresD(1) [OF cl] by simp
    show ?thesis
    proof (rule inv_closures_update [OF cl _ k [THEN conjunct1] k [THEN conjunct2]])
      show "Running w fr Enter = Queued (frame_of L k) \<or> Running w fr Enter = Finished \<or>
            (\<exists>pc. Running w fr Enter = Running w (frame_of L k) pc \<and> w < W)"
        using fr w by simp
      show "\<And>k'. runs_on w (closures s k') \<Longrightarrow> k' = k"
        using free by simp
    qed (simp_all add: take(4))
  next
    case (work fr pc0 pc' ctx' s')
    note frm = task_step_frame [OF work(4)]
    from work(2) have ne: "closures s k \<noteq> Unsubmitted" by simp
    note k = inv_closuresD(2) [OF cl ne]
    note fw = inv_closuresD(4) [OF cl work(2)]
    have r: "runs_on w (closures s k)" using work(2) by simp
    show ?thesis
    proof (rule inv_closures_update [OF cl _ k [THEN conjunct1] k [THEN conjunct2]])
      show "Running w fr pc' = Queued (frame_of L k) \<or> Running w fr pc' = Finished \<or>
            (\<exists>pc. Running w fr pc' = Running w (frame_of L k) pc \<and> w < W)"
        using fw by simp
      show "\<And>k'. runs_on w (closures s k') \<Longrightarrow> k' = k"
        using inv_closuresD(5) [OF cl _ r] by simp
    qed (simp_all add: work(5) frm)
  next
    case (mark fr)
    from mark(2) have ne: "closures s k \<noteq> Unsubmitted" by simp
    note k = inv_closuresD(2) [OF cl ne]
    have r: "runs_on w (closures s k)" using mark(2) by simp
    show ?thesis
    proof (rule inv_closures_update [OF cl _ k [THEN conjunct1] k [THEN conjunct2]])
      show "Finished = Queued (frame_of L k) \<or> (Finished :: 'a closure) = Finished \<or>
            (\<exists>pc. Finished = Running w (frame_of L k) pc \<and> w < W)"
        by simp
      show "\<And>k'. runs_on w (closures s k') \<Longrightarrow> k' = k"
        using inv_closuresD(5) [OF cl _ r] by simp
    qed (simp_all add: mark(3))
  qed
  then show ?thesis by (simp add: Worker step_def)
qed

lemma inv_futures_step:
  assumes "plan_ok L" and "structure_inv L W s"
  shows "inv_futures (step L a s)"
proof (cases a)
  case Caller
  from assms(2) have pc: "inv_pc L s" and fu: "inv_futures s"
    by (simp_all add: structure_inv_def)
  have "inv_futures (caller_step L s)"
  proof (cases L s rule: caller_step_cases)
    case stay
    with fu show ?thesis by simp
  next
    case (dispatch j)
    with fu show ?thesis by (simp add: inv_futures_def)
  next
    case (fallback j)
    with pc have "1 \<le> j" by (simp add: inv_pc_def)
    with fallback assms(1) show ?thesis by (simp add: plan_ok_def)
  next
    case (start0 j)
    with fu show ?thesis by (simp add: inv_futures_def)
  next
    case (task0 pc pc' ctx' s')
    with fu task_step_frame [OF task0(3)] show ?thesis by (simp add: inv_futures_def)
  next
    case towait
    with fu show ?thesis by (simp add: inv_futures_def)
  next
    case (wait j)
    with fu show ?thesis by (simp add: inv_futures_def)
  next
    case (joined j)
    with fu show ?thesis by (simp add: inv_futures_def)
  qed
  then show ?thesis by (simp add: Caller step_def)
next
  case (Worker w k)
  from assms(2) have fu: "inv_futures s"
    by (simp_all add: structure_inv_def)
  have "inv_futures (worker_step L w k s)"
  proof (cases L w k s rule: worker_step_cases)
    case stay
    with fu show ?thesis by simp
  next
    case (take fr)
    with fu show ?thesis by (auto simp: inv_futures_def)
  next
    case (work fr pc0 pc' ctx' s')
    with fu task_step_frame [OF work(4)] show ?thesis by (auto simp: inv_futures_def)
  next
    case (mark fr)
    with fu show ?thesis by (auto simp: inv_futures_def)
  qed
  then show ?thesis by (simp add: Worker step_def)
qed

lemma structure_inv_step:
  assumes "plan_ok L" and "structure_inv L W s"
  shows "structure_inv L W (step L a s)"
  using inv_pc_step [OF assms] inv_closures_step [OF assms(2)] inv_futures_step [OF assms]
  by (simp add: structure_inv_def)

lemma structure_inv_run:
  assumes "plan_ok L" and "structure_inv L W s"
  shows "structure_inv L W (run L sched s)"
  using assms(2)
proof (induction sched arbitrary: s)
  case Nil
  then show ?case by simp
next
  case (Cons a sched)
  from structure_inv_step [OF assms(1) Cons.prems] show ?case
    by (simp add: Cons.IH)
qed

lemma structure_inv_forked:
  assumes "plan_ok L"
  shows "structure_inv L (length wctx) (forked ctx wctx rs)"
  using assms
  by (simp add: structure_inv_def inv_pc_def inv_closures_def inv_futures_def forked_def
      before_call_def plan_ok_def)

subsection \<open>Every step is a move of one task\<close>

lemma progress_caller_only:
  assumes "closures s' = closures s"
  shows "progress s' = (progress s)(0 := caller_progress (caller_pc s'))"
  using assms by (intro ext) (simp add: progress_def)

lemma progress_closure_only:
  assumes "k \<noteq> 0" and "caller_pc s' = caller_pc s" and "closures s' = (closures s)(k := c)"
  shows "progress s' = (progress s)(k := closure_progress c)"
  using assms by (intro ext) (simp add: progress_def)

lemma thread_ctx_caller_only:
  assumes "closures s' = closures s" and "worker_ctx s' = worker_ctx s"
  shows "thread_ctx s' = (thread_ctx s)(0 := Some (caller_ctx s'))"
  using assms by (intro ext) (simp add: thread_ctx_def split: closure.split)

lemma thread_ctx_closure:
  assumes "k \<noteq> 0" and "caller_ctx s' = caller_ctx s" and "closures s' = (closures s)(k := c)"
    and "\<And>k' w'. k' \<noteq> k \<Longrightarrow> runs_on w' (closures s k') \<Longrightarrow> worker_ctx s' ! w' = worker_ctx s ! w'"
  shows "thread_ctx s' =
         (thread_ctx s)(k := case c of Running w _ _ \<Rightarrow> Some (worker_ctx s' ! w) | _ \<Rightarrow> None)"
proof (rule ext)
  fix k'
  show "thread_ctx s' k' =
        ((thread_ctx s)(k := case c of Running w _ _ \<Rightarrow> Some (worker_ctx s' ! w) | _ \<Rightarrow> None)) k'"
  proof (cases "k' = k")
    case True
    with assms(1,3) show ?thesis by (simp add: thread_ctx_def)
  next
    case False
    show ?thesis
    proof (cases "closures s k'")
      case (Running w' fr pc)
      then have "runs_on w' (closures s k')" by simp
      from assms(4) [OF False this] Running False assms(2,3) show ?thesis
        by (simp add: thread_ctx_def)
    qed (use False assms(2,3) in \<open>simp_all add: thread_ctx_def\<close>)
  qed
qed

lemma task_step_move:
  assumes ts: "task_step L who fr pc ctx s = (pc', ctx', s1)" and nr: "pc \<noteq> Return"
    and fr: "fr = frame_of L k" and pr: "progress s k = At pc" and tc: "thread_ctx s k = Some ctx"
    and mv: "moved k (At pc') (Some ctx') s s'"
    and sh: "same_shared s1 s'"
    and who: "who = None \<longleftrightarrow> k = 0"
  shows "task_move L k s s'"
  using ts nr
proof (cases rule: task_step_cases)
  case enter
  with fr pr tc mv sh show ?thesis
    by (intro tm_enter [where c = ctx]) (simp_all add: same_shared_def)
next
  case (ret v)
  with fr pr tc mv sh who show ?thesis
    by (intro tm_return [where c = ctx and v = v and who = who]) (simp_all add: same_shared_def body_of_def call_of_def)
next
  case (throw e)
  with fr pr tc mv sh who show ?thesis
    by (intro tm_throw [where c = ctx and e = e and who = who]) (simp_all add: same_shared_def body_of_def call_of_def)
next
  case (lose e)
  with fr pr tc mv sh show ?thesis
    by (intro tm_lose [where c = ctx and e = e]) (simp_all add: same_shared_def)
next
  case (win e)
  with fr pr tc mv sh show ?thesis
    by (intro tm_win [where c = ctx and e = e]) (simp_all add: same_shared_def)
next
  case (store e)
  with fr pr tc mv sh show ?thesis
    by (intro tm_store [where c = ctx and e = e]) (simp_all add: same_shared_def)
next
  case leave
  with fr pr tc mv sh show ?thesis
    by (intro tm_leave [where c = ctx]) (simp_all add: same_shared_def)
qed

lemma quiet_refl: "quiet s s"
  by (simp add: quiet_def same_shared_def)

lemma caller_step_abstract:
  assumes "structure_inv L W s"
  shows "quiet s (caller_step L s) \<or> task_move L 0 s (caller_step L s)"
proof -
  from assms have pc: "inv_pc L s"
    by (simp add: structure_inv_def)
  show ?thesis
  proof (cases L s rule: caller_step_cases)
    case stay
    then show ?thesis by (simp add: quiet_refl)
  next
    case (dispatch j)
    from dispatch(1) pc have j: "1 \<le> j" and un: "closures s j = Unsubmitted"
      by (simp_all add: inv_pc_def)
    from j have j0: "j \<noteq> 0" by auto
    have "progress (caller_step L s) = progress s"
      using dispatch(1) un j0 by (intro ext) (simp add: dispatch(4) progress_def)
    moreover have "thread_ctx (caller_step L s) = thread_ctx s"
      using un j0 by (intro ext) (simp add: dispatch(4) thread_ctx_def split: closure.split)
    ultimately show ?thesis
      by (simp add: quiet_def same_shared_def dispatch(4))
  next
    case (fallback j)
    have "progress (caller_step L s) = progress s"
      using fallback(1) by (intro ext) (simp add: fallback(4) progress_def)
    moreover have "thread_ctx (caller_step L s) = thread_ctx s"
      by (intro ext) (simp add: fallback(4) thread_ctx_def split: closure.split)
    ultimately show ?thesis
      by (simp add: quiet_def same_shared_def fallback(4))
  next
    case (start0 j)
    have "task_move L 0 s (caller_step L s)"
    proof (rule tm_begin [where c = "caller_ctx s"])
      show "progress s 0 = NotStarted"
        using start0(1) by (simp add: progress_def)
      have "progress (caller_step L s)
            = (progress s)(0 := caller_progress (caller_pc (caller_step L s)))"
        by (rule progress_caller_only) (simp add: start0(3))
      moreover have "thread_ctx (caller_step L s)
            = (thread_ctx s)(0 := Some (caller_ctx (caller_step L s)))"
        by (rule thread_ctx_caller_only) (simp_all add: start0(3))
      ultimately show "moved 0 (At Enter) (Some (caller_ctx s)) s (caller_step L s)"
        by (simp add: moved_def start0(3))
    qed (simp_all add: same_shared_def start0(3))
    then show ?thesis ..
  next
    case (task0 pc0 pc' ctx' s1)
    note frm = task_step_frame [OF task0(3)]
    have "task_move L 0 s (caller_step L s)"
    proof (rule task_step_move [OF task0(3) task0(2) refl])
      show "progress s 0 = At pc0"
        using task0(1) by (simp add: progress_def)
      show "thread_ctx s 0 = Some (caller_ctx s)"
        by (simp add: thread_ctx_def)
      have "progress (caller_step L s)
            = (progress s)(0 := caller_progress (caller_pc (caller_step L s)))"
        by (rule progress_caller_only) (simp add: task0(4) frm)
      moreover have "thread_ctx (caller_step L s)
            = (thread_ctx s)(0 := Some (caller_ctx (caller_step L s)))"
        by (rule thread_ctx_caller_only) (simp_all add: task0(4) frm)
      ultimately show "moved 0 (At pc') (Some ctx') s (caller_step L s)"
        by (simp add: moved_def task0(4))
      show "same_shared s1 (caller_step L s)"
        unfolding task0(4) by (simp add: same_shared_def)
    qed simp
    then show ?thesis ..
  next
    case towait
    have "task_move L 0 s (caller_step L s)"
    proof (rule tm_end)
      show "progress s 0 = At Return"
        using towait(1) by (simp add: progress_def)
      have "progress (caller_step L s)
            = (progress s)(0 := caller_progress (caller_pc (caller_step L s)))"
        by (rule progress_caller_only) (simp add: towait(2))
      moreover have "thread_ctx (caller_step L s)
            = (thread_ctx s)(0 := Some (caller_ctx (caller_step L s)))"
        by (rule thread_ctx_caller_only) (simp_all add: towait(2))
      ultimately show "moved 0 Ended (if (0 :: size_t) = 0 then Some (caller_ctx s) else None) s (caller_step L s)"
        by (simp add: moved_def towait(2))
    qed (simp add: same_shared_def towait(2))
    then show ?thesis ..
  next
    case (wait j)
    have "progress (caller_step L s) = progress s"
      using wait(1) by (intro ext) (simp add: wait(4) progress_def)
    moreover have "thread_ctx (caller_step L s) = thread_ctx s"
      by (intro ext) (simp add: wait(4) thread_ctx_def split: closure.split)
    ultimately show ?thesis
      by (simp add: quiet_def same_shared_def wait(4))
  next
    case (joined j)
    have "progress (caller_step L s) = progress s"
      using joined(1) by (intro ext) (simp add: joined(3) progress_def)
    moreover have "thread_ctx (caller_step L s) = thread_ctx s"
      by (intro ext) (simp add: joined(3) thread_ctx_def split: closure.split)
    ultimately show ?thesis
      by (simp add: quiet_def same_shared_def joined(3))
  qed
qed

lemma worker_step_abstract:
  assumes "structure_inv L W s"
  shows "quiet s (worker_step L w k s) \<or>
         (k \<noteq> 0 \<and> k < l_num_tasks L \<and> task_move L k s (worker_step L w k s))"
proof -
  from assms have cl: "inv_closures L W s"
    by (simp add: structure_inv_def)
  show ?thesis
  proof (cases L w k s rule: worker_step_cases)
    case stay
    then show ?thesis by (simp add: quiet_refl)
  next
    case (take fr)
    from take(2) have "closures s k \<noteq> Unsubmitted" by simp
    from inv_closuresD(2) [OF cl this] have k: "1 \<le> k" "k < l_num_tasks L" by simp_all
    from k(1) have k0: "k \<noteq> 0" by auto
    have "task_move L k s (worker_step L w k s)"
    proof (rule tm_begin [where c = "worker_ctx s ! w"])
      show "progress s k = NotStarted"
        using take(2) k0 by (simp add: progress_def)
      have "progress (worker_step L w k s) = (progress s)(k := closure_progress (Running w fr Enter))"
        by (rule progress_closure_only [OF k0]) (simp_all add: take(4))
      moreover have "thread_ctx (worker_step L w k s) = (thread_ctx s)(k := Some (worker_ctx s ! w))"
        using thread_ctx_closure [OF k0, of "worker_step L w k s" s "Running w fr Enter"]
        by (simp add: take(4))
      ultimately show "moved k (At Enter) (Some (worker_ctx s ! w)) s (worker_step L w k s)"
        by (simp add: moved_def)
    qed (use k0 in \<open>simp_all add: same_shared_def take(4)\<close>)
    with k k0 show ?thesis by simp
  next
    case (work fr pc0 pc' ctx' s1)
    note frm = task_step_frame [OF work(4)]
    from work(2) have "closures s k \<noteq> Unsubmitted" by simp
    from inv_closuresD(2) [OF cl this] have k: "1 \<le> k" "k < l_num_tasks L" by simp_all
    from k(1) have k0: "k \<noteq> 0" by auto
    have fr: "fr = frame_of L k"
      using inv_closuresD(4) [OF cl work(2)] by simp
    have r: "runs_on w (closures s k)" using work(2) by simp
    have other: "worker_ctx (worker_step L w k s) ! w' = worker_ctx s ! w'"
      if "k' \<noteq> k" and "runs_on w' (closures s k')" for k' w'
    proof -
      have "w' \<noteq> w"
        using inv_closuresD(5) [OF cl that(2), of k] r that(1) by auto
      then show ?thesis
        by (simp add: work(5) frm)
    qed
    have "task_move L k s (worker_step L w k s)"
    proof (rule task_step_move [OF work(4) work(3) fr])
      show "progress s k = At pc0"
        using work(2) k0 by (simp add: progress_def)
      show "thread_ctx s k = Some (worker_ctx s ! w)"
        using work(2) k0 by (simp add: thread_ctx_def)
      have "progress (worker_step L w k s) = (progress s)(k := At pc')"
        using progress_closure_only [OF k0, of "worker_step L w k s" s "Running w fr pc'"]
        by (simp add: work(5) frm)
      moreover have "thread_ctx (worker_step L w k s) = (thread_ctx s)(k := Some ctx')"
        using thread_ctx_closure [OF k0, of "worker_step L w k s" s "Running w fr pc'"] other
          work(1)
        by (simp add: work(5) frm)
      ultimately show "moved k (At pc') (Some ctx') s (worker_step L w k s)"
        by (simp add: moved_def)
      show "same_shared s1 (worker_step L w k s)"
        unfolding work(5) by (simp add: same_shared_def)
    qed (use k0 in simp)
    with k k0 show ?thesis by simp
  next
    case (mark fr)
    from mark(2) have "closures s k \<noteq> Unsubmitted" by simp
    from inv_closuresD(2) [OF cl this] have k: "1 \<le> k" "k < l_num_tasks L" by simp_all
    from k(1) have k0: "k \<noteq> 0" by auto
    have "task_move L k s (worker_step L w k s)"
    proof (rule tm_end)
      show "progress s k = At Return"
        using mark(2) k0 by (simp add: progress_def)
      have "progress (worker_step L w k s) = (progress s)(k := Ended)"
        using progress_closure_only [OF k0, of "worker_step L w k s" s Finished]
        by (simp add: mark(3))
      moreover have "thread_ctx (worker_step L w k s) = (thread_ctx s)(k := None)"
        using thread_ctx_closure [OF k0, of "worker_step L w k s" s Finished]
        by (simp add: mark(3))
      ultimately show "moved k Ended (if k = 0 then Some (caller_ctx s) else None) s (worker_step L w k s)"
        using k0 by (simp add: moved_def)
    qed (simp add: same_shared_def mark(3))
    with k k0 show ?thesis by simp
  qed
qed

lemma step_abstract:
  assumes "plan_ok L" and "structure_inv L W s"
  shows "quiet s (step L a s) \<or> (\<exists>k. k < l_num_tasks L \<and> task_move L k s (step L a s))"
proof (cases a)
  case Caller
  have "0 < l_num_tasks L"
    using assms(1) by (auto simp: plan_ok_def word_less_nat_alt word_le_nat_alt)
  with caller_step_abstract [OF assms(2)] Caller show ?thesis
    by (auto simp: step_def)
next
  case (Worker w k)
  with worker_step_abstract [OF assms(2), of w k] show ?thesis
    by (auto simp: step_def)
qed

subsection \<open>Contexts, invocations and exceptions along a run\<close>

lemma run_invariant:
  assumes ok: "plan_ok L" and st: "structure_inv L W s" and P: "P s"
    and quiet: "\<And>s s'. P s \<Longrightarrow> quiet s s' \<Longrightarrow> P s'"
    and move: "\<And>s s' k. structure_inv L W s \<Longrightarrow> P s \<Longrightarrow> k < l_num_tasks L \<Longrightarrow>
                 task_move L k s s' \<Longrightarrow> P s'"
  shows "P (run L sched s)"
  using st P
proof (induction sched arbitrary: s)
  case Nil
  then show ?case by simp
next
  case (Cons a sched)
  have "P (step L a s)"
    using step_abstract [OF ok Cons.prems(1), of a] quiet [OF Cons.prems(2)]
      move [OF Cons.prems(1,2)] by blast
  with structure_inv_step [OF ok Cons.prems(1)] show ?case
    by (simp add: Cons.IH)
qed

lemma enter_ctx: "set_in_parallel_region True (set_thread_num k c) = inside k"
  by (cases c) (simp add: set_in_parallel_region_def set_thread_num_def inside_def)

lemma leave_ctx: "unset_thread_num (set_in_parallel_region False c) = outside"
  by (cases c) (simp add: set_in_parallel_region_def unset_thread_num_def outside_def)

lemma ctx_inv_quiet:
  assumes "ctx_inv s" and "quiet s s'"
  shows "ctx_inv s'"
  using assms by (simp add: ctx_inv_def quiet_def)

lemma ctx_inv_move:
  assumes "ctx_inv s" and "task_move L k s s'"
  shows "ctx_inv s'"
  using assms(2,1)
proof (cases rule: task_move.cases)
  case (tm_begin c)
  with assms(1) show ?thesis
    by (auto simp: ctx_inv_def moved_def)
next
  case (tm_enter c)
  with assms(1) show ?thesis
    by (auto simp: ctx_inv_def moved_def enter_ctx)
next
  case (tm_return c v who)
  with assms(1) show ?thesis
    by (auto simp: ctx_inv_def moved_def)
next
  case (tm_throw c e who)
  with assms(1) show ?thesis
    by (auto simp: ctx_inv_def moved_def)
next
  case (tm_lose e c)
  with assms(1) show ?thesis
    by (auto simp: ctx_inv_def moved_def)
next
  case (tm_win e c)
  with assms(1) show ?thesis
    by (auto simp: ctx_inv_def moved_def)
next
  case (tm_store e c)
  with assms(1) show ?thesis
    by (auto simp: ctx_inv_def moved_def)
next
  case (tm_leave c)
  with assms(1) show ?thesis
    by (auto simp: ctx_inv_def moved_def leave_ctx)
next
  case tm_end
  with assms(1) show ?thesis
    by (auto simp: ctx_inv_def moved_def thread_ctx_def)
qed


lemma call_task_call_of [simp]: "call_task (call_of L who c k) = Some k"
  by (simp add: call_of_def)

lemma calls_inv_quiet:
  assumes "calls_inv L s" and "quiet s s'"
  shows "calls_inv L s'"
  using assms by (simp add: calls_inv_def quiet_def same_shared_def)

lemma calls_inv_same:
  assumes inv: "calls_inv L s" and calls: "calls s' = calls s"
    and pr: "progress s' = (progress s)(k := p)" and pb: "past_body p = past_body (progress s k)"
  shows "calls_inv L s'"
  using inv pb unfolding calls_inv_def calls pr by auto

lemma calls_inv_call:
  assumes inv: "calls_inv L s" and calls: "calls s' = calls s @ [call_of L who (inside k) k]"
    and who: "who = None \<longleftrightarrow> k = 0"
    and pr: "progress s' = (progress s)(k := p)" and before: "progress s k = At Body"
    and pb: "past_body p"
  shows "calls_inv L s'"
proof -
  from inv have a: "\<forall>c \<in> set (calls s). \<exists>k who. c = call_of L who (inside k) k \<and> (who = None \<longleftrightarrow> k = 0)"
    and b: "\<And>k'. count_list (map call_task (calls s)) (Some k')
              = (if past_body (progress s k') then 1 else 0)"
    by (simp_all add: calls_inv_def)
  have "\<forall>c \<in> set (calls s'). \<exists>k who. c = call_of L who (inside k) k \<and> (who = None \<longleftrightarrow> k = 0)"
    using a who unfolding calls by auto
  moreover have "count_list (map call_task (calls s')) (Some k')
              = (if past_body (progress s' k') then 1 else 0)" for k'
    using b [of k'] before pb unfolding calls pr by (cases "k' = k") simp_all
  ultimately show ?thesis
    by (simp add: calls_inv_def)
qed

lemma calls_inv_move:
  assumes "ctx_inv s" and "calls_inv L s" and "task_move L k s s'"
  shows "calls_inv L s'"
  using assms(3)
proof (cases rule: task_move.cases)
  case (tm_begin c)
  then show ?thesis
    by (intro calls_inv_same [OF assms(2), of _ k "At Enter"]) (simp_all add: moved_def same_shared_def)
next
  case (tm_enter c)
  then show ?thesis
    by (intro calls_inv_same [OF assms(2), of _ k "At Body"]) (simp_all add: moved_def same_shared_def)
next
  case (tm_return c v who)
  from tm_return(1,2) assms(1) have "c = inside k"
    by (simp add: ctx_inv_def)
  with tm_return show ?thesis
    by (intro calls_inv_call [OF assms(2), of _ who k "At Leave"]) (simp_all add: moved_def)
next
  case (tm_throw c e who)
  from tm_throw(1,2) assms(1) have "c = inside k"
    by (simp add: ctx_inv_def)
  with tm_throw show ?thesis
    by (intro calls_inv_call [OF assms(2), of _ who k "At (Catch e)"]) (simp_all add: moved_def)
next
  case (tm_lose e c)
  then show ?thesis
    by (intro calls_inv_same [OF assms(2), of _ k "At Leave"]) (simp_all add: moved_def)
next
  case (tm_win e c)
  then show ?thesis
    by (intro calls_inv_same [OF assms(2), of _ k "At (Store e)"]) (simp_all add: moved_def)
next
  case (tm_store e c)
  then show ?thesis
    by (intro calls_inv_same [OF assms(2), of _ k "At Leave"]) (simp_all add: moved_def)
next
  case (tm_leave c)
  then show ?thesis
    by (intro calls_inv_same [OF assms(2), of _ k "At Return"]) (simp_all add: moved_def same_shared_def)
next
  case tm_end
  then show ?thesis
    by (intro calls_inv_same [OF assms(2), of _ k Ended]) (simp_all add: moved_def same_shared_def)
qed


lemma exn_invD:
  assumes "exn_inv L s"
  shows "err_flag s \<longleftrightarrow> claimed s \<noteq> []"
    and "distinct (claimed s)"
    and "k \<in> set (claimed s) \<longleftrightarrow> (\<exists>e. body_of L k = Inl e) \<and> past_catch (progress s k)"
    and "progress s k = At (Catch e) \<or> progress s k = At (Store e) \<Longrightarrow> body_of L k = Inl e"
    and "progress s k = At (Store e) \<Longrightarrow> claimed s \<noteq> [] \<and> hd (claimed s) = k \<and> eptr s = None"
    and "eptr s = Some e \<Longrightarrow> claimed s \<noteq> [] \<and> body_of L (hd (claimed s)) = Inl e
            \<and> past_store (progress s (hd (claimed s)))"
    and "eptr s = None \<Longrightarrow> claimed s \<noteq> [] \<Longrightarrow> \<exists>e. progress s (hd (claimed s)) = At (Store e)"
  using assms unfolding exn_inv_def by blast+

lemma exn_invI:
  assumes "err_flag s \<longleftrightarrow> claimed s \<noteq> []"
    and "distinct (claimed s)"
    and "\<And>k. k \<in> set (claimed s) \<longleftrightarrow> (\<exists>e. body_of L k = Inl e) \<and> past_catch (progress s k)"
    and "\<And>k e. progress s k = At (Catch e) \<or> progress s k = At (Store e) \<Longrightarrow> body_of L k = Inl e"
    and "\<And>k e. progress s k = At (Store e) \<Longrightarrow> claimed s \<noteq> [] \<and> hd (claimed s) = k \<and> eptr s = None"
    and "\<And>e. eptr s = Some e \<Longrightarrow> claimed s \<noteq> [] \<and> body_of L (hd (claimed s)) = Inl e
            \<and> past_store (progress s (hd (claimed s)))"
    and "eptr s = None \<Longrightarrow> claimed s \<noteq> [] \<Longrightarrow> \<exists>e. progress s (hd (claimed s)) = At (Store e)"
  shows "exn_inv L s"
  unfolding exn_inv_def using assms by blast

lemma exn_inv_quiet:
  assumes "exn_inv L s" and "quiet s s'"
  shows "exn_inv L s'"
  using assms by (simp add: exn_inv_def quiet_def same_shared_def)

text \<open>A move that touches neither the flag, the log nor the pointer.\<close>

lemma exn_inv_plain:
  assumes inv: "exn_inv L s"
    and sh: "err_flag s' = err_flag s" "claimed s' = claimed s" "eptr s' = eptr s"
    and pr: "progress s' = (progress s)(k := p)"
    and pc: "past_catch p \<longleftrightarrow> past_catch (progress s k) \<or> (past_catch p \<and> (\<forall>e. body_of L k \<noteq> Inl e))"
    and ps: "past_store (progress s k) \<Longrightarrow> past_store p"
    and st: "\<And>e. p \<noteq> At (Store e)" "\<And>e. progress s k \<noteq> At (Store e)"
    and ca: "\<And>e. p = At (Catch e) \<Longrightarrow> body_of L k = Inl e"
  shows "exn_inv L s'"
proof (rule exn_invI)
  note D = exn_invD [OF inv]
  show "err_flag s' \<longleftrightarrow> claimed s' \<noteq> []"
    using D(1) sh by simp
  show "distinct (claimed s')"
    using D(2) sh by simp
  show "k' \<in> set (claimed s') \<longleftrightarrow> (\<exists>e. body_of L k' = Inl e) \<and> past_catch (progress s' k')" for k'
    using D(3) [of k'] pc unfolding sh pr by (cases "k' = k") auto
  show "body_of L k' = Inl e" if "progress s' k' = At (Catch e) \<or> progress s' k' = At (Store e)" for k' e
    using that D(4) [of k' e] ca [of e] st(1) [of e] unfolding pr by (cases "k' = k") auto
  show "claimed s' \<noteq> [] \<and> hd (claimed s') = k' \<and> eptr s' = None" if "progress s' k' = At (Store e)" for k' e
    using that D(5) [of k' e] st(1) [of e] unfolding pr sh by (cases "k' = k") auto
  show "claimed s' \<noteq> [] \<and> body_of L (hd (claimed s')) = Inl e \<and> past_store (progress s' (hd (claimed s')))"
    if "eptr s' = Some e" for e
    using that D(6) [of e] ps unfolding pr sh by (cases "hd (claimed s) = k") auto
  show "\<exists>e. progress s' (hd (claimed s')) = At (Store e)" if "eptr s' = None" "claimed s' \<noteq> []"
    using that D(7) st(2) unfolding pr sh by (cases "hd (claimed s) = k") auto
qed


lemma exn_inv_lose:
  assumes inv: "exn_inv L s" and at: "progress s k = At (Catch e)" and flag: "err_flag s"
    and sh: "err_flag s' = err_flag s" "claimed s' = claimed s @ [k]" "eptr s' = eptr s"
    and pr: "progress s' = (progress s)(k := At Leave)"
  shows "exn_inv L s'"
proof (rule exn_invI)
  note D = exn_invD [OF inv]
  have ne: "claimed s \<noteq> []" using D(1) flag by simp
  have body: "body_of L k = Inl e" using D(4) [of k e] at by simp
  have notin: "k \<notin> set (claimed s)" using D(3) [of k] at by simp
  have hd: "hd (claimed s') = hd (claimed s)" using ne sh by simp
  have hdk: "hd (claimed s) \<noteq> k" using ne notin hd_in_set by metis
  have ne': "claimed s' \<noteq> []" using sh(2) by simp
  show "err_flag s' \<longleftrightarrow> claimed s' \<noteq> []"
    using flag sh by simp
  show "distinct (claimed s')"
    using D(2) notin sh by simp
  show "k' \<in> set (claimed s') \<longleftrightarrow> (\<exists>e. body_of L k' = Inl e) \<and> past_catch (progress s' k')" for k'
    using D(3) [of k'] body unfolding sh pr by (cases "k' = k") auto
  show "body_of L k' = Inl e'" if "progress s' k' = At (Catch e') \<or> progress s' k' = At (Store e')" for k' e'
    using that D(4) [of k' e'] unfolding pr by (cases "k' = k") auto
  show "claimed s' \<noteq> [] \<and> hd (claimed s') = k' \<and> eptr s' = None" if "progress s' k' = At (Store e')" for k' e'
  proof (cases "k' = k")
    case True
    with that show ?thesis by (simp add: pr)
  next
    case False
    with that have "progress s k' = At (Store e')" by (simp add: pr)
    from D(5) [OF this] ne' hd sh(3) show ?thesis by simp
  qed
  show "claimed s' \<noteq> [] \<and> body_of L (hd (claimed s')) = Inl e' \<and> past_store (progress s' (hd (claimed s')))"
    if "eptr s' = Some e'" for e'
  proof -
    from that have "eptr s = Some e'" by (simp add: sh(3))
    from D(6) [OF this] ne' hdk show ?thesis by (simp add: hd pr)
  qed
  show "\<exists>e. progress s' (hd (claimed s')) = At (Store e)" if "eptr s' = None" "claimed s' \<noteq> []"
  proof -
    from that(1) have "eptr s = None" by (simp add: sh(3))
    from D(7) [OF this ne] hdk show ?thesis by (simp add: hd pr)
  qed
qed

lemma exn_inv_win:
  assumes inv: "exn_inv L s" and at: "progress s k = At (Catch e)" and flag: "\<not> err_flag s"
    and sh: "err_flag s'" "claimed s' = claimed s @ [k]" "eptr s' = eptr s"
    and pr: "progress s' = (progress s)(k := At (Store e))"
  shows "exn_inv L s'"
proof (rule exn_invI)
  note D = exn_invD [OF inv]
  have emp: "claimed s = []" using D(1) flag by simp
  have body: "body_of L k = Inl e" using D(4) [of k e] at by simp
  have cl: "claimed s' = [k]" using emp sh by simp
  have ep: "eptr s = None"
  proof (cases "eptr s")
    case (Some e')
    with D(6) [of e'] emp show ?thesis by simp
  qed simp
  have nostore: "progress s k' \<noteq> At (Store e')" for k' e'
    using D(5) [of k' e'] emp by auto
  show "err_flag s' \<longleftrightarrow> claimed s' \<noteq> []"
    using sh(1) cl by simp
  show "distinct (claimed s')"
    using cl by simp
  show "k' \<in> set (claimed s') \<longleftrightarrow> (\<exists>e. body_of L k' = Inl e) \<and> past_catch (progress s' k')" for k'
    using D(3) [of k'] body emp unfolding cl pr by (cases "k' = k") auto
  show "body_of L k' = Inl e'" if "progress s' k' = At (Catch e') \<or> progress s' k' = At (Store e')" for k' e'
    using that D(4) [of k' e'] body unfolding pr by (cases "k' = k") auto
  show "claimed s' \<noteq> [] \<and> hd (claimed s') = k' \<and> eptr s' = None" if "progress s' k' = At (Store e')" for k' e'
    using that nostore [of k' e'] ep unfolding pr sh(3) cl by (cases "k' = k") auto
  show "claimed s' \<noteq> [] \<and> body_of L (hd (claimed s')) = Inl e' \<and> past_store (progress s' (hd (claimed s')))"
    if "eptr s' = Some e'" for e'
    using that ep unfolding sh(3) by simp
  show "\<exists>e. progress s' (hd (claimed s')) = At (Store e)" if "eptr s' = None" "claimed s' \<noteq> []"
    unfolding cl pr by simp
qed

lemma exn_inv_store:
  assumes inv: "exn_inv L s" and at: "progress s k = At (Store e)"
    and sh: "err_flag s' = err_flag s" "claimed s' = claimed s" "eptr s' = Some e"
    and pr: "progress s' = (progress s)(k := At Leave)"
  shows "exn_inv L s'"
proof (rule exn_invI)
  note D = exn_invD [OF inv]
  from D(5) [OF at] have ne: "claimed s \<noteq> []" and hd: "hd (claimed s) = k" and ep: "eptr s = None"
    by simp_all
  have body: "body_of L k = Inl e" using D(4) [of k e] at by simp
  have only: "k' = k" if "progress s k' = At (Store e')" for k' e'
    using D(5) [OF that] hd by simp
  show "err_flag s' \<longleftrightarrow> claimed s' \<noteq> []"
    using D(1) sh by simp
  show "distinct (claimed s')"
    using D(2) sh by simp
  show "k' \<in> set (claimed s') \<longleftrightarrow> (\<exists>e. body_of L k' = Inl e) \<and> past_catch (progress s' k')" for k'
    using D(3) [of k'] at unfolding sh pr by (cases "k' = k") auto
  show "body_of L k' = Inl e'" if "progress s' k' = At (Catch e') \<or> progress s' k' = At (Store e')" for k' e'
    using that D(4) [of k' e'] unfolding pr by (cases "k' = k") auto
  show "claimed s' \<noteq> [] \<and> hd (claimed s') = k' \<and> eptr s' = None" if "progress s' k' = At (Store e')" for k' e'
    using that only [of k' e'] unfolding pr by (cases "k' = k") auto
  show "claimed s' \<noteq> [] \<and> body_of L (hd (claimed s')) = Inl e' \<and> past_store (progress s' (hd (claimed s')))"
    if "eptr s' = Some e'" for e'
    using that ne hd body unfolding sh pr by simp
  show "\<exists>e. progress s' (hd (claimed s')) = At (Store e)" if "eptr s' = None" "claimed s' \<noteq> []"
    using that(1) sh(3) by simp
qed

lemma exn_inv_move:
  assumes "exn_inv L s" and "task_move L k s s'"
  shows "exn_inv L s'"
  using assms(2)
proof (cases rule: task_move.cases)
  case (tm_begin c)
  then show ?thesis
    by (intro exn_inv_plain [OF assms(1), of _ k "At Enter"]) (simp_all add: moved_def same_shared_def)
next
  case (tm_enter c)
  then show ?thesis
    by (intro exn_inv_plain [OF assms(1), of _ k "At Body"]) (simp_all add: moved_def same_shared_def)
next
  case (tm_return c v who)
  then show ?thesis
    by (intro exn_inv_plain [OF assms(1), of _ k "At Leave"]) (simp_all add: moved_def)
next
  case (tm_throw c e who)
  then show ?thesis
    by (intro exn_inv_plain [OF assms(1), of _ k "At (Catch e)"]) (simp_all add: moved_def)
next
  case (tm_lose e c)
  then show ?thesis
    by (intro exn_inv_lose [OF assms(1), of k e]) (simp_all add: moved_def)
next
  case (tm_win e c)
  then show ?thesis
    by (intro exn_inv_win [OF assms(1), of k e]) (simp_all add: moved_def)
next
  case (tm_store e c)
  then show ?thesis
    by (intro exn_inv_store [OF assms(1), of k e]) (simp_all add: moved_def)
next
  case (tm_leave c)
  then show ?thesis
    by (intro exn_inv_plain [OF assms(1), of _ k "At Return"]) (simp_all add: moved_def same_shared_def)
next
  case tm_end
  then show ?thesis
    by (intro exn_inv_plain [OF assms(1), of _ k Ended]) (simp_all add: moved_def same_shared_def)
qed

subsection \<open>Runs from the fork\<close>

lemma progress_forked [simp]: "progress (forked ctx wctx rs) k = NotStarted"
  by (simp add: progress_def forked_def before_call_def)

lemma run_inv_forked: "run_inv L (forked ctx wctx rs)"
  by (simp add: run_inv_def ctx_inv_def calls_inv_def exn_inv_def)
     (simp add: forked_def before_call_def)

lemma run_inv_run:
  assumes "plan_ok L"
  shows "run_inv L (run L sched (forked ctx wctx rs))"
proof (rule run_invariant [where P = "run_inv L" and W = "length wctx", OF assms])
  show "structure_inv L (length wctx) (forked ctx wctx rs)"
    by (rule structure_inv_forked [OF assms])
  show "run_inv L (forked ctx wctx rs)"
    by (rule run_inv_forked)
next
  fix s s' :: "('a, 'c) engine"
  assume "run_inv L s" and "quiet s s'"
  then show "run_inv L s'"
    unfolding run_inv_def
    by (blast intro: ctx_inv_quiet calls_inv_quiet exn_inv_quiet)
next
  fix s s' :: "('a, 'c) engine" and k
  assume "run_inv L s" and "task_move L k s s'"
  then show "run_inv L s'"
    unfolding run_inv_def
    by (blast intro: ctx_inv_move calls_inv_move exn_inv_move)
qed

lemma progress_started:
  assumes "plan_ok L" and "inv_closures L W s" and "progress s k \<noteq> NotStarted"
  shows "k < l_num_tasks L"
proof (cases "k = 0")
  case True
  then show ?thesis
    using assms(1) by (auto simp: plan_ok_def word_less_nat_alt word_le_nat_alt)
next
  case False
  with assms(3) have "closures s k \<noteq> Unsubmitted"
    by (auto simp: progress_def)
  with inv_closuresD(2) [OF assms(2)] show ?thesis by simp
qed

lemma progress_joined:
  assumes ok: "plan_ok L" and st: "structure_inv L W s" and j: "caller_pc s = Joined"
  shows "progress s k = (if k < l_num_tasks L then Ended else NotStarted)"
proof (cases "k < l_num_tasks L")
  case True
  show ?thesis
  proof (cases "k = 0")
    case True
    with j \<open>k < l_num_tasks L\<close> show ?thesis by (simp add: progress_def)
  next
    case False
    then have "1 \<le> k" by (simp add: word_le_nat_alt unat_gt_0 [symmetric] Suc_le_eq)
    with st j True have "closures s k = Finished"
      by (simp add: structure_inv_def inv_pc_def)
    with False True show ?thesis by (simp add: progress_def)
  qed
next
  case False
  from st have "inv_closures L W s" by (simp add: structure_inv_def)
  from progress_started [OF ok this, of k] False show ?thesis by auto
qed

subsection \<open>The parallel branch of the two primitives\<close>

lemma plan_ok_locals:
  assumes "parallel_case t lo hi g"
    and "l_begin L = lo" and "l_end L = hi" and "l_chunk_size L = chunk_size t lo hi g"
    and "l_num_tasks L = num_tasks lo hi (chunk_size t lo hi g)"
  shows "plan_ok L"
proof -
  have "1 \<le> uint (num_tasks lo hi (chunk_size t lo hi g))"
    by (rule uint_num_tasks(2) [OF assms(1) refl])
  then have n: "1 \<le> num_tasks lo hi (chunk_size t lo hi g)"
    by (simp add: word_le_def)
  have "local_start lo (chunk_size t lo hi g) k <s hi"
    if "k < num_tasks lo hi (chunk_size t lo hi g)" for k
    using sint_local_start(2) [OF assms(1) refl that] by (simp add: word_sless_alt)
  with n show ?thesis
    by (simp add: plan_ok_def assms(2-5))
qed

lemma plan_ok_for_locals:
  "parallel_case t lo hi g \<Longrightarrow> plan_ok (for_locals t lo hi g f)"
  by (rule plan_ok_locals [of t lo hi g]) (simp_all add: for_locals_def)

lemma plan_ok_reduce_locals:
  "parallel_case t lo hi g \<Longrightarrow> plan_ok (reduce_locals t lo hi g ident f)"
  by (rule plan_ok_locals [of t lo hi g]) (simp_all add: reduce_locals_def)

lemma parallel_case_tests:
  assumes "parallel_case t lo hi g"
  shows "\<not> hi \<le>s lo" and "\<not> g <s 0" and "g \<le>s hi - lo"
  using assms by (simp_all add: parallel_case_def word_sle_eq word_sless_alt)

lemma parallel_for_forks:
  assumes "parallel_case t lo hi g" and "\<not> in_parallel_region ctx"
  shows "parallel_for t sched ctx wctx lo hi g f =
         (if caller_pc (run (for_locals t lo hi g f) sched (forked ctx wctx [])) = Joined then
            Some (case eptr (run (for_locals t lo hi g f) sched (forked ctx wctx [])) of
                    Some e \<Rightarrow> Inl (Thrown e) | None \<Rightarrow> Inr ())
          else None,
          run (for_locals t lo hi g f) sched (forked ctx wctx []))"
proof -
  note t = parallel_case_tests [OF assms(1)]
  have fk: "(before_call ctx wctx :: ('a, unit) engine)\<lparr>caller_pc := Dispatch 1\<rparr> = forked ctx wctx []"
    by (simp add: forked_def before_call_def)
  show ?thesis
    unfolding parallel_for_def Let_def if_not_P [OF t(1)] if_not_P [OF t(2)]
    using t(3) assms(2) by (simp add: fk for_locals_def)
qed

lemma parallel_reduce_forks:
  assumes "parallel_case t lo hi g" and "\<not> in_parallel_region ctx"
  shows "parallel_reduce t sched ctx wctx dflt lo hi g ident f sf =
         (if caller_pc (run (reduce_locals t lo hi g ident f) sched
                (forked ctx wctx (replicate (unat (num_tasks lo hi (chunk_size t lo hi g))) dflt)))
               = Joined then
            Some (case eptr (run (reduce_locals t lo hi g ident f) sched
                    (forked ctx wctx (replicate (unat (num_tasks lo hi (chunk_size t lo hi g))) dflt))) of
                    Some e \<Rightarrow> Inl (Thrown e)
                  | None \<Rightarrow> Inr (foldl sf ident (results (run (reduce_locals t lo hi g ident f) sched
                    (forked ctx wctx (replicate (unat (num_tasks lo hi (chunk_size t lo hi g))) dflt))))))
          else None,
          run (reduce_locals t lo hi g ident f) sched
            (forked ctx wctx (replicate (unat (num_tasks lo hi (chunk_size t lo hi g))) dflt)))"
proof -
  note t = parallel_case_tests [OF assms(1)]
  show ?thesis
    unfolding parallel_reduce_def Let_def if_not_P [OF t(1)] if_not_P [OF t(2)]
      forked_def reduce_locals_def
    using t(3) assms(2) by simp
qed

subsection \<open>What holds on the way and at the join\<close>

lemma reachable_facts:
  assumes ok: "plan_ok L"
  shows "structure_inv L (length wctx) (run L sched (forked ctx wctx rs))"
    and "run_inv L (run L sched (forked ctx wctx rs))"
  by (rule structure_inv_run [OF ok structure_inv_forked [OF ok]]) (rule run_inv_run [OF ok])

lemma joined_calls:
  assumes ok: "plan_ok L" and j: "caller_pc (run L sched (forked ctx wctx rs)) = Joined"
  shows "count_list (map call_task (calls (run L sched (forked ctx wctx rs)))) (Some k)
         = (if k < l_num_tasks L then 1 else 0)"
proof -
  note st = reachable_facts(1) [OF ok, where sched = sched and ctx = ctx and wctx = wctx and rs = rs]
  note ri = reachable_facts(2) [OF ok, where sched = sched and ctx = ctx and wctx = wctx and rs = rs]
  from ri have "count_list (map call_task (calls (run L sched (forked ctx wctx rs)))) (Some k)
      = (if past_body (progress (run L sched (forked ctx wctx rs)) k) then 1 else 0)"
    by (simp add: run_inv_def calls_inv_def)
  then show ?thesis
    by (simp add: progress_joined [OF ok st j])
qed

lemma joined_futures:
  assumes ok: "plan_ok L" and j: "caller_pc (run L sched (forked ctx wctx rs)) = Joined"
    and k: "1 \<le> k" "k < l_num_tasks L"
  shows "futures (run L sched (forked ctx wctx rs)) k = Some Completed"
    and "closures (run L sched (forked ctx wctx rs)) k = Finished"
proof -
  note st = reachable_facts(1) [OF ok, where sched = sched and ctx = ctx and wctx = wctx and rs = rs]
  from st j k show c: "closures (run L sched (forked ctx wctx rs)) k = Finished"
    by (simp add: structure_inv_def inv_pc_def)
  with st show "futures (run L sched (forked ctx wctx rs)) k = Some Completed"
    by (simp add: structure_inv_def inv_futures_def)
qed


lemma joined_claimed:
  assumes ok: "plan_ok L" and j: "caller_pc (run L sched (forked ctx wctx rs)) = Joined"
  shows "distinct (claimed (run L sched (forked ctx wctx rs)))"
    and "set (claimed (run L sched (forked ctx wctx rs)))
         = {k. k < l_num_tasks L \<and> (\<exists>e. body_of L k = Inl e)}"
proof -
  let ?s = "run L sched (forked ctx wctx rs)"
  note st = reachable_facts(1) [OF ok, where sched = sched and ctx = ctx and wctx = wctx and rs = rs]
  note ri = reachable_facts(2) [OF ok, where sched = sched and ctx = ctx and wctx = wctx and rs = rs]
  from ri have ex: "exn_inv L ?s" by (simp add: run_inv_def)
  show "distinct (claimed ?s)" by (rule exn_invD(2) [OF ex])
  show "set (claimed ?s) = {k. k < l_num_tasks L \<and> (\<exists>e. body_of L k = Inl e)}"
    using exn_invD(3) [OF ex] progress_joined [OF ok st j]
    by (auto split: if_splits)
qed

lemma joined_eptr:
  assumes ok: "plan_ok L" and j: "caller_pc (run L sched (forked ctx wctx rs)) = Joined"
  shows "eptr (run L sched (forked ctx wctx rs))
         = (case claimed (run L sched (forked ctx wctx rs)) of
              [] \<Rightarrow> None
            | k # _ \<Rightarrow> (case body_of L k of Inl e \<Rightarrow> Some e | Inr _ \<Rightarrow> None))"
proof -
  let ?s = "run L sched (forked ctx wctx rs)"
  note st = reachable_facts(1) [OF ok, where sched = sched and ctx = ctx and wctx = wctx and rs = rs]
  note ri = reachable_facts(2) [OF ok, where sched = sched and ctx = ctx and wctx = wctx and rs = rs]
  from ri have ex: "exn_inv L ?s" by (simp add: run_inv_def)
  show ?thesis
  proof (cases "claimed ?s")
    case Nil
    have "eptr ?s = None"
    proof (cases "eptr ?s")
      case (Some e)
      from exn_invD(6) [OF ex Some] Nil show ?thesis by simp
    qed simp
    with Nil show ?thesis by simp
  next
    case (Cons h t)
    then have ne: "claimed ?s \<noteq> []" and hd: "hd (claimed ?s) = h" by simp_all
    have "progress ?s h \<noteq> At (Store e)" for e
      using progress_joined [OF ok st j, of h] by (simp split: if_splits)
    with exn_invD(7) [OF ex _ ne] hd obtain e where e: "eptr ?s = Some e"
      by (cases "eptr ?s") auto
    from exn_invD(6) [OF ex e] hd have "body_of L h = Inl e" by simp
    with e Cons show ?thesis by simp
  qed
qed


lemma reachable_once:
  assumes ok: "plan_ok L"
  shows "count_list (map call_task (calls (run L sched (forked ctx wctx rs)))) (Some k) \<le> 1"
  using reachable_facts(2) [OF ok, where sched = sched and ctx = ctx and wctx = wctx and rs = rs]
  by (simp add: run_inv_def calls_inv_def)

lemma reachable_no_fallback:
  assumes ok: "plan_ok L" and d: "caller_pc (run L sched (forked ctx wctx rs)) = Dispatch j"
    and j: "j < l_num_tasks L"
  shows "local_start (l_begin L) (l_chunk_size L) j <s l_end L"
proof -
  from reachable_facts(1) [OF ok, where sched = sched and ctx = ctx and wctx = wctx and rs = rs] d have "1 \<le> j"
    by (simp add: structure_inv_def inv_pc_def)
  with ok j show ?thesis by (simp add: plan_ok_def)
qed

lemma reachable_completed:
  assumes ok: "plan_ok L" and "futures (run L sched (forked ctx wctx rs)) k = Some Completed"
  shows "closures (run L sched (forked ctx wctx rs)) k = Finished"
  using reachable_facts(1) [OF ok, where sched = sched and ctx = ctx and wctx = wctx and rs = rs] assms(2)
  by (simp add: structure_inv_def inv_futures_def)


subsection \<open>Every run can be completed\<close>

lemma run_append: "run L (xs @ ys) s = run L ys (run L xs s)"
  by (induction xs arbitrary: s) simp_all

lemma distinct_task_ids: "distinct (task_ids L)"
proof -
  have "inj_on (of_nat :: nat \<Rightarrow> 64 word) (set [1 ..< unat (l_num_tasks L)])"
  proof (rule inj_onI)
    fix x y
    assume x: "x \<in> set [1 ..< unat (l_num_tasks L)]" and y: "y \<in> set [1 ..< unat (l_num_tasks L)]"
      and eq: "(of_nat x :: 64 word) = of_nat y"
    have "unat (l_num_tasks L) < 2 ^ LENGTH(64)" by (rule unsigned_less)
    with x y have "x < 2 ^ LENGTH(64)" "y < 2 ^ LENGTH(64)" by simp_all
    then have "unat (of_nat x :: 64 word) = x" "unat (of_nat y :: 64 word) = y"
      by (simp_all add: unat_of_nat)
    with eq show "x = y" by metis
  qed
  then show ?thesis
    by (simp add: task_ids_def distinct_map)
qed

lemma set_task_ids: "set (task_ids L) = {k. 1 \<le> k \<and> k < l_num_tasks L}"
proof (intro set_eqI iffI)
  fix k
  assume "k \<in> set (task_ids L)"
  then obtain i where i: "1 \<le> i" "i < unat (l_num_tasks L)" and k: "k = of_nat i"
    by (auto simp: task_ids_def)
  have "unat (l_num_tasks L) < 2 ^ LENGTH(64)" by (rule unsigned_less)
  with i have "unat (of_nat i :: 64 word) = i"
    by (simp add: unat_of_nat)
  with i k show "k \<in> {k. 1 \<le> k \<and> k < l_num_tasks L}"
    by (simp add: word_le_nat_alt word_less_nat_alt)
next
  fix k
  assume "k \<in> {k. 1 \<le> k \<and> k < l_num_tasks L}"
  then show "k \<in> set (task_ids L)"
    by (simp add: mem_task_ids)
qed

lemma sum_list_update:
  assumes "distinct xs" and "k \<in> set xs"
  shows "sum_list (map (f(k := v)) xs) + f k = sum_list (map f xs) + (v :: nat)"
  using assms
proof (induction xs)
  case Nil
  then show ?case by simp
next
  case (Cons x xs)
  show ?case
  proof (cases "x = k")
    case True
    with Cons.prems have "k \<notin> set xs" by simp
    then have "map (f(k := v)) xs = map f xs" by (intro map_cong) auto
    then have "sum_list (map (f(k := v)) xs) = sum_list (map f xs)" by (rule arg_cong)
    with True show ?thesis by (simp del: fun_upd_apply) simp
  next
    case False
    with Cons show ?thesis by simp
  qed
qed

lemma closures_rank_decrease:
  assumes k: "1 \<le> k" "k < l_num_tasks L"
    and upd: "closures s' = (closures s)(k := c)" and lt: "closure_rank c < closure_rank (closures s k)"
  shows "sum_list (map (\<lambda>k. closure_rank (closures s' k)) (task_ids L))
         < sum_list (map (\<lambda>k. closure_rank (closures s k)) (task_ids L))"
proof -
  have "(\<lambda>k'. closure_rank (closures s' k')) = (\<lambda>k'. closure_rank (closures s k'))(k := closure_rank c)"
    by (intro ext) (simp add: upd)
  with sum_list_update [OF distinct_task_ids mem_task_ids [OF k],
      of "\<lambda>k'. closure_rank (closures s k')" "closure_rank c"] lt
  show ?thesis by simp
qed

lemma task_step_rank:
  assumes "task_step L who fr pc ctx s = (pc', ctx', s')" and "pc \<noteq> Return"
  shows "pc_rank pc' < pc_rank pc"
  using assms by (cases rule: task_step_cases) simp_all


lemma inv_submitted_step:
  assumes "plan_ok L" and "structure_inv L W s" and "inv_submitted L s"
  shows "inv_submitted L (step L a s)"
proof (cases a)
  case Caller
  from assms(2) have pc: "inv_pc L s" by (simp add: structure_inv_def)
  have "inv_submitted L (caller_step L s)"
  proof (cases L s rule: caller_step_cases)
    case stay
    with assms(3) show ?thesis by simp
  next
    case (dispatch j)
    with assms(3) word_succ_facts(4) [OF dispatch(2)] show ?thesis
      by (auto simp: inv_submitted_def order_le_less)
  next
    case (fallback j)
    with pc have "1 \<le> j" by (simp add: inv_pc_def)
    with fallback assms(1) show ?thesis by (simp add: plan_ok_def)
  next
    case (start0 j)
    with pc have "j = l_num_tasks L" by (auto simp: inv_pc_def)
    with start0 assms(3) show ?thesis by (simp add: inv_submitted_def)
  next
    case (task0 pc0 pc' ctx' s')
    with assms(3) task_step_frame [OF task0(3)] show ?thesis
      by (simp add: inv_submitted_def)
  next
    case towait
    with assms(3) show ?thesis by (simp add: inv_submitted_def)
  next
    case (wait j)
    with assms(3) show ?thesis by (simp add: inv_submitted_def)
  next
    case (joined j)
    with assms(3) show ?thesis by (simp add: inv_submitted_def)
  qed
  then show ?thesis by (simp add: Caller step_def)
next
  case (Worker w k)
  have "inv_submitted L (worker_step L w k s)"
  proof (cases L w k s rule: worker_step_cases)
    case stay
    with assms(3) show ?thesis by simp
  next
    case (take fr)
    with assms(3) show ?thesis by (simp add: inv_submitted_def)
  next
    case (work fr pc0 pc' ctx' s')
    with assms(3) task_step_frame [OF work(4)] show ?thesis
      by (simp add: inv_submitted_def)
  next
    case (mark fr)
    with assms(3) show ?thesis by (simp add: inv_submitted_def)
  qed
  then show ?thesis by (simp add: Worker step_def)
qed

lemma inv_submitted_run:
  assumes "plan_ok L" and "structure_inv L W s" and "inv_submitted L s"
  shows "inv_submitted L (run L sched s)"
  using assms(2,3)
proof (induction sched arbitrary: s)
  case Nil
  then show ?case by simp
next
  case (Cons a sched)
  from Cons.IH [OF structure_inv_step [OF assms(1) Cons.prems(1)]
      inv_submitted_step [OF assms(1) Cons.prems]]
  show ?case by simp
qed

lemma inv_submitted_forked:
  assumes "plan_ok L"
  shows "inv_submitted L (forked ctx wctx rs)"
  by (auto simp: inv_submitted_def forked_def before_call_def word_le_nat_alt word_less_nat_alt)

lemma worker_running_decrease:
  assumes st: "structure_inv L W s" and r: "closures s k = Running w fr pc"
  shows "remaining L (step L (Worker w k) s) < remaining L s"
proof -
  from st have cl: "inv_closures L W s" by (simp add: structure_inv_def)
  from r have "closures s k \<noteq> Unsubmitted" by simp
  from inv_closuresD(2) [OF cl this] have k: "1 \<le> k" "k < l_num_tasks L" by simp_all
  have w: "w < length (worker_ctx s)"
    using inv_closuresD(4) [OF cl r] inv_closuresD(1) [OF cl] by simp
  show ?thesis
  proof (cases "pc = Return")
    case True
    with w r have eq: "worker_step L w k s =
        s\<lparr>closures := (closures s)(k := Finished), futures := (futures s)(k := Some Completed)\<rparr>"
      by (simp add: worker_step_def)
    have "sum_list (map (\<lambda>k'. closure_rank (closures (worker_step L w k s) k')) (task_ids L))
        < sum_list (map (\<lambda>k. closure_rank (closures s k)) (task_ids L))"
      by (rule closures_rank_decrease [OF k, of _ _ Finished]) (simp_all add: eq r True)
    then show ?thesis
      by (simp add: remaining_def step_def eq)
  next
    case False
    obtain pc' ctx' s' where ts: "task_step L (Some w) fr pc (worker_ctx s ! w) s = (pc', ctx', s')"
      by (cases "task_step L (Some w) fr pc (worker_ctx s ! w) s") auto
    note frm = task_step_frame [OF ts]
    from w r False ts have eq: "worker_step L w k s =
        s'\<lparr>closures := (closures s')(k := Running w fr pc'),
           worker_ctx := (worker_ctx s')[w := ctx']\<rparr>"
      by (simp add: worker_step_def)
    have "sum_list (map (\<lambda>k'. closure_rank (closures (worker_step L w k s) k')) (task_ids L))
        < sum_list (map (\<lambda>k. closure_rank (closures s k)) (task_ids L))"
      by (rule closures_rank_decrease [OF k, of _ _ "Running w fr pc'"])
         (simp_all add: eq r frm task_step_rank [OF ts False])
    then show ?thesis
      by (simp add: remaining_def step_def eq frm)
  qed
qed

lemma worker_take_decrease:
  assumes st: "structure_inv L W s" and q: "closures s k = Queued fr"
    and w: "w < length (worker_ctx s)" and idle: "idle L w s"
  shows "remaining L (step L (Worker w k) s) < remaining L s"
proof -
  from st have cl: "inv_closures L W s" by (simp add: structure_inv_def)
  from q have "closures s k \<noteq> Unsubmitted" by simp
  from inv_closuresD(2) [OF cl this] have k: "1 \<le> k" "k < l_num_tasks L" by simp_all
  from w q idle have eq: "worker_step L w k s = s\<lparr>closures := (closures s)(k := Running w fr Enter)\<rparr>"
    by (simp add: worker_step_def)
  have "sum_list (map (\<lambda>k'. closure_rank (closures (worker_step L w k s) k')) (task_ids L))
      < sum_list (map (\<lambda>k. closure_rank (closures s k)) (task_ids L))"
    by (rule closures_rank_decrease [OF k, of _ _ "Running w fr Enter"]) (simp_all add: eq q)
  then show ?thesis
    by (simp add: remaining_def step_def eq)
qed


lemma caller_decrease:
  assumes ok: "plan_ok L" and st: "structure_inv L W s"
    and c: "(\<exists>j. caller_pc s = Dispatch j) \<or> (\<exists>pc. caller_pc s = Task0 pc)
          \<or> (\<exists>j. caller_pc s = Wait j \<and> (j < l_num_tasks L \<longrightarrow> futures s j = Some Completed))"
  shows "remaining L (step L Caller s) < remaining L s"
proof -
  from st have pc: "inv_pc L s" by (simp add: structure_inv_def)
  from c consider
      (dispatch) j where "caller_pc s = Dispatch j"
    | (task0) pc0 where "caller_pc s = Task0 pc0"
    | (wait) j where "caller_pc s = Wait j" "j < l_num_tasks L \<longrightarrow> futures s j = Some Completed"
    by blast
  then show ?thesis
  proof cases
    case (dispatch j)
    with pc have j: "1 \<le> j" "j \<le> l_num_tasks L" and un: "closures s j = Unsubmitted"
      by (simp_all add: inv_pc_def)
    show ?thesis
    proof (cases "j < l_num_tasks L")
      case True
      with ok j have "local_start (l_begin L) (l_chunk_size L) j <s l_end L"
        by (simp add: plan_ok_def)
      with dispatch True have eq: "caller_step L s =
          s\<lparr>futures := (futures s)(j := Some Pending),
            closures := (closures s)(j := Queued (frame_of L j)),
            caller_pc := Dispatch (j + 1)\<rparr>"
        by (simp add: caller_step_def Let_def frame_of_def)
      have "sum_list (map (\<lambda>k'. closure_rank (closures (caller_step L s) k')) (task_ids L))
          < sum_list (map (\<lambda>k'. closure_rank (closures s k')) (task_ids L))"
        by (rule closures_rank_decrease [OF j(1) True, of _ _ "Queued (frame_of L j)"])
           (simp_all add: eq un)
      moreover have "unat j < unat (j + 1)"
        using word_succ_facts(2) [OF True] by (simp add: word_less_nat_alt)
      ultimately show ?thesis
        using dispatch by (simp add: remaining_def step_def eq)
    next
      case False
      with dispatch have eq: "caller_step L s = s\<lparr>caller_pc := Task0 Enter\<rparr>"
        by (simp add: caller_step_def)
      show ?thesis
        using dispatch by (simp add: remaining_def step_def eq)
    qed
  next
    case (task0 pc0)
    show ?thesis
    proof (cases "pc0 = Return")
      case True
      with task0 have eq: "caller_step L s = s\<lparr>caller_pc := Wait 1\<rparr>"
        by (simp add: caller_step_def)
      show ?thesis
        using task0 True by (simp add: remaining_def step_def eq)
    next
      case False
      obtain pc' ctx' s' where
        ts: "task_step L None (frame_of L 0) pc0 (caller_ctx s) s = (pc', ctx', s')"
        by (cases "task_step L None (frame_of L 0) pc0 (caller_ctx s) s") auto
      note frm = task_step_frame [OF ts]
      from task0 False ts have eq: "caller_step L s = s'\<lparr>caller_pc := Task0 pc', caller_ctx := ctx'\<rparr>"
        by (simp add: caller_step_def frame_of_0)
      show ?thesis
        using task0 task_step_rank [OF ts False] by (simp add: remaining_def step_def eq frm)
    qed
  next
    case (wait j)
    with pc have j: "1 \<le> j" "j \<le> l_num_tasks L"
      by (simp_all add: inv_pc_def)
    show ?thesis
    proof (cases "j < l_num_tasks L")
      case True
      with wait have eq: "caller_step L s = s\<lparr>caller_pc := Wait (j + 1)\<rparr>"
        by (simp add: caller_step_def)
      have "unat j < unat (j + 1)"
        using word_succ_facts(2) [OF True] by (simp add: word_less_nat_alt)
      moreover have "unat (j + 1) \<le> unat (l_num_tasks L)"
        using word_succ_facts(1) [OF True] by (simp add: word_le_nat_alt)
      ultimately show ?thesis
        using wait(1) by (simp add: remaining_def step_def eq)
    next
      case False
      with wait have eq: "caller_step L s = s\<lparr>caller_pc := Joined\<rparr>"
        by (simp add: caller_step_def)
      show ?thesis
        using wait(1) by (simp add: remaining_def step_def eq)
    qed
  qed
qed

lemma some_step_decreases:
  assumes ok: "plan_ok L" and st: "structure_inv L W s" and sub: "inv_submitted L s"
    and W: "0 < W" and nj: "caller_pc s \<noteq> Joined"
  shows "\<exists>a. remaining L (step L a s) < remaining L s"
proof -
  from st have pc: "inv_pc L s" and cl: "inv_closures L W s" and fu: "inv_futures s"
    by (simp_all add: structure_inv_def)
  show ?thesis
  proof (cases "\<exists>j. caller_pc s = Wait j \<and> j < l_num_tasks L \<and> futures s j \<noteq> Some Completed")
    case False
    with nj pc have "(\<exists>j. caller_pc s = Dispatch j) \<or> (\<exists>pc. caller_pc s = Task0 pc)
          \<or> (\<exists>j. caller_pc s = Wait j \<and> (j < l_num_tasks L \<longrightarrow> futures s j = Some Completed))"
      by (cases "caller_pc s") (auto simp: inv_pc_def)
    from caller_decrease [OF ok st this] show ?thesis ..
  next
    case True
    then obtain j where j: "caller_pc s = Wait j" "j < l_num_tasks L"
      "futures s j \<noteq> Some Completed"
      by blast
    from j(1) pc have j1: "1 \<le> j" by (simp add: inv_pc_def)
    from j(3) fu have nf: "closures s j \<noteq> Finished" by (simp add: inv_futures_def)
    from sub j(1,2) j1 have nu: "closures s j \<noteq> Unsubmitted" by (simp add: inv_submitted_def)
    show ?thesis
    proof (cases "closures s j")
      case (Running w fr pc0)
      from worker_running_decrease [OF st this] show ?thesis ..
    next
      case (Queued fr)
      have w0: "0 < length (worker_ctx s)"
        using W inv_closuresD(1) [OF cl] by simp
      show ?thesis
      proof (cases "idle L 0 s")
        case True
        from worker_take_decrease [OF st Queued w0 True] show ?thesis ..
      next
        case False
        then obtain k where "runs_on 0 (closures s k)"
          by (auto simp: idle_def list_all_iff)
        then obtain fr' pc' where "closures s k = Running 0 fr' pc'"
          by (cases "closures s k") simp_all
        from worker_running_decrease [OF st this] show ?thesis ..
      qed
    qed (use nf nu in simp_all)
  qed
qed

lemma can_join:
  assumes ok: "plan_ok L" and W: "0 < W"
  shows "structure_inv L W s \<Longrightarrow> inv_submitted L s \<Longrightarrow> \<exists>sched. caller_pc (run L sched s) = Joined"
proof (induction "remaining L s" arbitrary: s rule: less_induct)
  case less
  show ?case
  proof (cases "caller_pc s = Joined")
    case True
    then have "caller_pc (run L [] s) = Joined" by simp
    then show ?thesis ..
  next
    case False
    from some_step_decreases [OF ok less.prems W False]
    obtain a where a: "remaining L (step L a s) < remaining L s" ..
    from less.hyps [OF a structure_inv_step [OF ok less.prems(1)]
        inv_submitted_step [OF ok less.prems]]
    obtain sched where "caller_pc (run L sched (step L a s)) = Joined" ..
    then have "caller_pc (run L (a # sched) s) = Joined" by simp
    then show ?thesis ..
  qed
qed

lemma can_always_join:
  assumes ok: "plan_ok L" and W: "wctx \<noteq> []"
  shows "\<exists>sched'. caller_pc (run L (sched @ sched') (forked ctx wctx rs)) = Joined"
proof -
  have W': "0 < length wctx" using W by simp
  have "structure_inv L (length wctx) (run L sched (forked ctx wctx rs))"
    by (rule structure_inv_run [OF ok structure_inv_forked [OF ok]])
  moreover have "inv_submitted L (run L sched (forked ctx wctx rs))"
    by (rule inv_submitted_run [OF ok structure_inv_forked [OF ok] inv_submitted_forked [OF ok]])
  ultimately have "\<exists>sched'. caller_pc (run L sched' (run L sched (forked ctx wctx rs))) = Joined"
    by (rule can_join [OF ok W'])
  then show ?thesis
    by (simp add: run_append)
qed

section \<open>Exceptions\<close>

lemma joined_ok_run:
  assumes "plan_ok L" and "caller_pc (run L sched (forked ctx wctx rs)) = Joined"
  shows "joined_ok L (run L sched (forked ctx wctx rs))"
  unfolding joined_ok_def
  using joined_calls [OF assms] joined_futures(1) [OF assms] joined_claimed [OF assms]
    joined_eptr [OF assms]
  by (intro conjI allI impI) simp_all

lemma parallel_caseI:
  assumes "0 < num_threads" and "lo <s hi" and "0 \<le>s grain_size" and "grain_size \<le>s hi - lo"
  shows "parallel_case num_threads lo hi grain_size"
  using assms by (simp add: parallel_case_def)

lemma parallel_for_direct:
  assumes "lo <s hi" and "0 \<le>s grain_size"
    and "\<not> (grain_size \<le>s hi - lo \<and> \<not> in_parallel_region ctx)"
  shows "parallel_for num_threads sched ctx wctx lo hi grain_size f
           = (Some (case f lo hi of Inl e \<Rightarrow> Inl (Thrown e) | Inr u \<Rightarrow> Inr ()),
              (before_call ctx wctx)\<lparr>calls := [\<lparr>call_thread = None, call_ctx = ctx,
                  call_task = None, call_start = lo, call_end = hi\<rparr>]\<rparr>)"
proof -
  have ne: "\<not> hi \<le>s lo"
    using assms(1) by (simp add: word_sless_alt word_sle_eq)
  have g0: "\<not> grain_size <s 0"
    using assms(2) by (simp add: word_sless_alt word_sle_eq)
  show ?thesis
    unfolding parallel_for_def Let_def if_not_P [OF ne] if_not_P [OF g0] if_not_P [OF assms(3)]
    by (simp split: sum.split)
qed

lemma parallel_reduce_direct:
  assumes "lo <s hi" and "0 \<le>s grain_size"
    and "\<not> (grain_size \<le>s hi - lo \<and> \<not> in_parallel_region ctx)"
  shows "parallel_reduce num_threads sched ctx wctx dflt lo hi grain_size ident g sf
           = (Some (case g lo hi ident of Inl e \<Rightarrow> Inl (Thrown e) | Inr v \<Rightarrow> Inr v),
              (before_call ctx wctx)\<lparr>calls := [\<lparr>call_thread = None, call_ctx = ctx,
                  call_task = None, call_start = lo, call_end = hi\<rparr>]\<rparr>)"
proof -
  have ne: "\<not> hi \<le>s lo"
    using assms(1) by (simp add: word_sless_alt word_sle_eq)
  have g0: "\<not> grain_size <s 0"
    using assms(2) by (simp add: word_sless_alt word_sle_eq)
  show ?thesis
    unfolding parallel_reduce_def Let_def if_not_P [OF ne] if_not_P [OF g0] if_not_P [OF assms(3)]
    by (simp split: sum.split)
qed

text \<open>
  Claim C3. A call that gets past the two early exits either forks or calls the
  body directly.

  When it forks, then under every schedule, once the calling thread has an outcome
  the state is as \<open>joined_ok\<close> says: every task has been invoked exactly once (none
  is left out and none is run again), every dispatched future is completed, each
  task whose body raised has called \<^verbatim>\<open>test_and_set\<close> exactly once, and the
  exception pointer holds the exception of the task whose call came first. The
  outcome is that one exception, rethrown, when some body raised, and the normal
  return otherwise. Every schedule can be continued until the calling thread has
  its outcome, provided the pool has a worker.

  When it does not fork, the outcome is the outcome of the one direct invocation.
\<close>

theorem first_exception_rethrown_after_join:
  assumes "0 < num_threads" and "lo <s hi" and "0 \<le>s grain_size"
  shows "(grain_size \<le>s hi - lo \<and> \<not> in_parallel_region ctx \<longrightarrow>
            (\<forall>r. fst (parallel_for num_threads sched ctx wctx lo hi grain_size f) = Some r \<longrightarrow>
               joined_ok (for_locals num_threads lo hi grain_size f)
                 (snd (parallel_for num_threads sched ctx wctx lo hi grain_size f))
               \<and> r = (case eptr (snd (parallel_for num_threads sched ctx wctx lo hi grain_size f)) of
                        Some e \<Rightarrow> Inl (Thrown e) | None \<Rightarrow> Inr ()))
          \<and> (\<forall>r. fst (parallel_reduce num_threads sched ctx wctx dflt lo hi grain_size ident g sf) = Some r \<longrightarrow>
               joined_ok (reduce_locals num_threads lo hi grain_size ident g)
                 (snd (parallel_reduce num_threads sched ctx wctx dflt lo hi grain_size ident g sf))
               \<and> (case eptr (snd (parallel_reduce num_threads sched ctx wctx dflt lo hi grain_size ident g sf)) of
                        Some e \<Rightarrow> r = Inl (Thrown e) | None \<Rightarrow> \<exists>v. r = Inr v))
          \<and> (wctx \<noteq> [] \<longrightarrow>
               (\<exists>sched'. fst (parallel_for num_threads (sched @ sched') ctx wctx lo hi grain_size f) \<noteq> None)
             \<and> (\<exists>sched'. fst (parallel_reduce num_threads (sched @ sched') ctx wctx dflt lo hi grain_size
                               ident g sf) \<noteq> None)))
       \<and> (\<not> (grain_size \<le>s hi - lo \<and> \<not> in_parallel_region ctx) \<longrightarrow>
            parallel_for num_threads sched ctx wctx lo hi grain_size f
              = (Some (case f lo hi of Inl e \<Rightarrow> Inl (Thrown e) | Inr u \<Rightarrow> Inr ()),
                 (before_call ctx wctx)\<lparr>calls := [\<lparr>call_thread = None, call_ctx = ctx,
                     call_task = None, call_start = lo, call_end = hi\<rparr>]\<rparr>)
          \<and> parallel_reduce num_threads sched ctx wctx dflt lo hi grain_size ident g sf
              = (Some (case g lo hi ident of Inl e \<Rightarrow> Inl (Thrown e) | Inr v \<Rightarrow> Inr v),
                 (before_call ctx wctx)\<lparr>calls := [\<lparr>call_thread = None, call_ctx = ctx,
                     call_task = None, call_start = lo, call_end = hi\<rparr>]\<rparr>))"
proof (intro conjI impI)
  assume br: "grain_size \<le>s hi - lo \<and> \<not> in_parallel_region ctx"
  then have pc: "parallel_case num_threads lo hi grain_size" and out: "\<not> in_parallel_region ctx"
    using assms by (simp_all add: parallel_caseI)
  note okf = plan_ok_for_locals [OF pc, of f]
  note okr = plan_ok_reduce_locals [OF pc, of ident g]
  show "\<forall>r. fst (parallel_for num_threads sched ctx wctx lo hi grain_size f) = Some r \<longrightarrow>
          joined_ok (for_locals num_threads lo hi grain_size f)
            (snd (parallel_for num_threads sched ctx wctx lo hi grain_size f))
          \<and> r = (case eptr (snd (parallel_for num_threads sched ctx wctx lo hi grain_size f)) of
                   Some e \<Rightarrow> Inl (Thrown e) | None \<Rightarrow> Inr ())"
    using joined_ok_run [OF okf, of sched ctx wctx "[]"]
    by (auto simp: parallel_for_forks [OF pc out] split: if_splits)
  show "\<forall>r. fst (parallel_reduce num_threads sched ctx wctx dflt lo hi grain_size ident g sf) = Some r \<longrightarrow>
          joined_ok (reduce_locals num_threads lo hi grain_size ident g)
            (snd (parallel_reduce num_threads sched ctx wctx dflt lo hi grain_size ident g sf))
          \<and> (case eptr (snd (parallel_reduce num_threads sched ctx wctx dflt lo hi grain_size ident g sf)) of
                   Some e \<Rightarrow> r = Inl (Thrown e) | None \<Rightarrow> \<exists>v. r = Inr v)"
    using joined_ok_run [OF okr, of sched ctx wctx
        "replicate (unat (num_tasks lo hi (chunk_size num_threads lo hi grain_size))) dflt"]
    by (auto simp: parallel_reduce_forks [OF pc out] split: if_splits option.splits)
  assume w: "wctx \<noteq> []"
  from can_always_join [OF okf w, of sched ctx "[]"]
  show "\<exists>sched'. fst (parallel_for num_threads (sched @ sched') ctx wctx lo hi grain_size f) \<noteq> None"
    by (auto simp: parallel_for_forks [OF pc out])
  from can_always_join [OF okr w, of sched ctx
        "replicate (unat (num_tasks lo hi (chunk_size num_threads lo hi grain_size))) dflt"]
  show "\<exists>sched'. fst (parallel_reduce num_threads (sched @ sched') ctx wctx dflt lo hi grain_size
                               ident g sf) \<noteq> None"
    by (auto simp: parallel_reduce_forks [OF pc out])
next
  assume "\<not> (grain_size \<le>s hi - lo \<and> \<not> in_parallel_region ctx)"
  then show "parallel_for num_threads sched ctx wctx lo hi grain_size f
              = (Some (case f lo hi of Inl e \<Rightarrow> Inl (Thrown e) | Inr u \<Rightarrow> Inr ()),
                 (before_call ctx wctx)\<lparr>calls := [\<lparr>call_thread = None, call_ctx = ctx,
                     call_task = None, call_start = lo, call_end = hi\<rparr>]\<rparr>)"
    by (rule parallel_for_direct [OF assms(2,3)])
next
  assume "\<not> (grain_size \<le>s hi - lo \<and> \<not> in_parallel_region ctx)"
  then show "parallel_reduce num_threads sched ctx wctx dflt lo hi grain_size ident g sf
              = (Some (case g lo hi ident of Inl e \<Rightarrow> Inl (Thrown e) | Inr v \<Rightarrow> Inr v),
                 (before_call ctx wctx)\<lparr>calls := [\<lparr>call_thread = None, call_ctx = ctx,
                     call_task = None, call_start = lo, call_end = hi\<rparr>]\<rparr>)"
    by (rule parallel_reduce_direct [OF assms(2,3)])
qed

theorem first_exception_rethrown_after_join_witness:
  "0 < (2 :: nat) \<and> (0 :: int64_t) <s 4 \<and> (0 :: int64_t) \<le>s 1
   \<and> ((1 :: int64_t) \<le>s 4 - 0 \<and> \<not> in_parallel_region outside)
   \<and> fst (parallel_for 2 worker_first outside [outside] 0 4 1
          (\<lambda>a b. if a = 0 then Inl (7 :: nat) else Inl 8)) = Some (Inl (Thrown 8))
   \<and> claimed (snd (parallel_for 2 worker_first outside [outside] 0 4 1
          (\<lambda>a b. if a = 0 then Inl (7 :: nat) else Inl 8))) = [1, 0]
   \<and> joined_ok (for_locals 2 0 4 1 (\<lambda>a b. if a = 0 then Inl (7 :: nat) else Inl 8))
         (snd (parallel_for 2 worker_first outside [outside] 0 4 1
          (\<lambda>a b. if a = 0 then Inl (7 :: nat) else Inl 8)))
   \<and> fst (parallel_reduce 2 caller_first outside [outside] (0 :: int) 0 4 1 0
          (\<lambda>a b v. if a = 0 then Inr (v + 5) else Inl (8 :: nat)) (+)) = Some (Inl (Thrown 8))
   \<and> joined_ok (reduce_locals 2 0 4 1 0 (\<lambda>a b v. if a = 0 then Inr (v + 5) else Inl (8 :: nat)))
         (snd (parallel_reduce 2 caller_first outside [outside] (0 :: int) 0 4 1 0
          (\<lambda>a b v. if a = 0 then Inr (v + 5) else Inl (8 :: nat)) (+)))"
proof -
  have h1: "0 < (2 :: nat)" by simp
  have h2: "(0 :: int64_t) <s 4" by (simp add: word_sless_alt)
  have h3: "(0 :: int64_t) \<le>s 1" by (simp add: word_sle_eq)
  have br: "(1 :: int64_t) \<le>s 4 - 0 \<and> \<not> in_parallel_region outside"
    by (simp add: word_sle_eq outside_def)
  have e1: "fst (parallel_for 2 worker_first outside [outside] 0 4 1
          (\<lambda>a b. if a = 0 then Inl (7 :: nat) else Inl 8)) = Some (Inl (Thrown 8))"
    by code_simp
  have c1: "claimed (snd (parallel_for 2 worker_first outside [outside] 0 4 1
          (\<lambda>a b. if a = 0 then Inl (7 :: nat) else Inl 8))) = [1, 0]"
    by code_simp
  have e2: "fst (parallel_reduce 2 caller_first outside [outside] (0 :: int) 0 4 1 0
          (\<lambda>a b v. if a = 0 then Inr (v + 5) else Inl (8 :: nat)) (+)) = Some (Inl (Thrown 8))"
    by code_simp
  note inst = first_exception_rethrown_after_join [OF h1 h2 h3,
      where ctx = outside and wctx = "[outside]"
        and f = "\<lambda>a b. if a = 0 then Inl (7 :: nat) else Inl 8"
        and g = "\<lambda>a b v. if a = 0 then Inr (v + 5) else Inl (8 :: nat)"
        and dflt = "0 :: int" and ident = "0 :: int" and sf = "(+)"]
  from inst [where sched = worker_first] br e1
  have j1: "joined_ok (for_locals 2 0 4 1 (\<lambda>a b. if a = 0 then Inl (7 :: nat) else Inl 8))
         (snd (parallel_for 2 worker_first outside [outside] 0 4 1
          (\<lambda>a b. if a = 0 then Inl (7 :: nat) else Inl 8)))"
    by blast
  from inst [where sched = caller_first] br e2
  have j2: "joined_ok (reduce_locals 2 0 4 1 0 (\<lambda>a b v. if a = 0 then Inr (v + 5) else Inl (8 :: nat)))
         (snd (parallel_reduce 2 caller_first outside [outside] (0 :: int) 0 4 1 0
          (\<lambda>a b v. if a = 0 then Inr (v + 5) else Inl (8 :: nat)) (+)))"
    by blast
  show ?thesis
    using h1 h2 h3 br e1 c1 j1 e2 j2 by blast
qed

section \<open>Thread-local contexts\<close>


lemma engine_ctx_iff: "engine_ctx c \<longleftrightarrow> c = outside \<or> (\<exists>k. c = inside k)"
  by (cases c) (auto simp: engine_ctx_def outside_def inside_def)










section \<open>The chunks of a parallel call\<close>

subsection \<open>Where the chunks begin and end\<close>

lemma uint_succ:
  fixes j n :: "64 word"
  assumes "j < n"
  shows "uint (j + 1) = uint j + 1"
proof -
  have "unat j < unat n"
    using assms by (simp add: word_less_nat_alt)
  moreover have "unat n < 2 ^ LENGTH(64)"
    by (rule unsigned_less)
  ultimately have "unat j + unat (1 :: 64 word) < 2 ^ LENGTH(64)"
    by simp
  then have "unat (j + 1) = unat j + unat (1 :: 64 word)"
    by (rule unat_add_lem [THEN iffD1])
  then have "int (unat (j + 1)) = int (unat j) + 1"
    by simp
  then show ?thesis
    by (simp only: uint_nat)
qed

lemma pred_less:
  fixes k n :: "64 word"
  assumes "k + 1 = n" and "n \<noteq> 0"
  shows "k < n"
proof -
  from assms have "1 + k \<noteq> 0" by (simp add: add.commute)
  then have "unat (1 + k) = Suc (unat k)" by (rule unatSuc)
  with assms(1) show ?thesis
    by (simp add: word_less_nat_alt add.commute)
qed

text \<open>
  The chunk arithmetic where no sum leaves the 64-bit range. The start of every
  task is \<open>begin + k * chunk_size\<close> and lies before \<open>end\<close> (shown above without any
  further assumption). The end of a task that is not the last one is the start of
  the next, again without further assumption; the end of the last task is \<open>end\<close>
  when \<open>begin + num_tasks * chunk_size\<close> is at most the largest \<^verbatim>\<open>int64_t\<close>.
\<close>

lemma inner_chunk_end:
  assumes pc: "parallel_case t lo hi g" and c: "c = chunk_size t lo hi g"
    and k: "k < num_tasks lo hi c" and k1: "k + 1 < num_tasks lo hi c"
  shows "local_end hi c (local_start lo c k) = local_start lo c (k + 1)"
    and "local_start lo c k <s local_start lo c (k + 1)"
proof -
  note s0 = sint_local_start [OF pc c k]
  note s1 = sint_local_start [OF pc c k1]
  note cs = uint_chunk_size [OF pc, folded c]
  have "sint (local_start lo c (k + 1)) = sint lo + uint (k + 1) * uint c"
    by (rule s1(1))
  also have "\<dots> = sint lo + (uint k + 1) * uint c"
    by (simp only: uint_succ [OF k])
  also have "\<dots> = sint (local_start lo c k) + uint c"
    by (simp add: s0(1) algebra_simps)
  finally have nxt: "sint (local_start lo c (k + 1)) = sint (local_start lo c k) + uint c" .
  then have no: "sint (local_start lo c k) + uint c < 9223372036854775808"
    using sint64_bounds(2) [of "local_start lo c (k + 1)"] by simp
  have "sint (local_end hi c (local_start lo c k)) = sint (local_start lo c (k + 1))"
    using sint_local_end [OF no, of hi] nxt s1(2) by simp
  then show "local_end hi c (local_start lo c k) = local_start lo c (k + 1)"
    by (rule signed_word_eqI)
  show "local_start lo c k <s local_start lo c (k + 1)"
    using nxt cs(2) by (simp add: word_sless_alt)
qed

lemma last_chunk_end:
  assumes pc: "parallel_case t lo hi g" and c: "c = chunk_size t lo hi g"
    and k: "k + 1 = num_tasks lo hi c"
    and no: "sint lo + uint (num_tasks lo hi c) * uint c < 9223372036854775808"
  shows "local_end hi c (local_start lo c k) = hi"
    and "local_start lo c k <s hi"
proof -
  note n = uint_num_tasks [OF pc c]
  have "num_tasks lo hi c \<noteq> 0"
    using n(2) by auto
  with k have kn: "k < num_tasks lo hi c"
    by (rule pred_less)
  note s0 = sint_local_start [OF pc c kn]
  have un: "uint (num_tasks lo hi c) = uint k + 1"
    using uint_succ [OF kn] k by simp
  have e: "sint (local_start lo c k) + uint c = sint lo + uint (num_tasks lo hi c) * uint c"
    by (simp add: s0(1) un algebra_simps)
  with no have "sint (local_start lo c k) + uint c < 9223372036854775808"
    by simp
  from sint_local_end [OF this, of hi] e n(4)
  have "sint (local_end hi c (local_start lo c k)) = sint hi"
    by simp
  then show "local_end hi c (local_start lo c k) = hi"
    by (rule signed_word_eqI)
  show "local_start lo c k <s hi"
    using s0(2) by (simp add: word_sless_alt)
qed

lemma last_chunk_end_wrapped:
  assumes pc: "parallel_case t lo hi g" and c: "c = chunk_size t lo hi g"
    and k: "k + 1 = num_tasks lo hi c"
    and ov: "9223372036854775808 \<le> sint lo + uint (num_tasks lo hi c) * uint c"
  shows "local_end hi c (local_start lo c k) <s local_start lo c k"
proof -
  note n = uint_num_tasks [OF pc c]
  note cs = uint_chunk_size [OF pc, folded c]
  have "num_tasks lo hi c \<noteq> 0"
    using n(2) by auto
  with k have kn: "k < num_tasks lo hi c"
    by (rule pred_less)
  note s0 = sint_local_start [OF pc c kn]
  have un: "uint (num_tasks lo hi c) = uint k + 1"
    using uint_succ [OF kn] k by simp
  have e: "sint (local_start lo c k) + uint c = sint lo + uint (num_tasks lo hi c) * uint c"
    by (simp add: s0(1) un algebra_simps)
  have "uint c < 9223372036854775808"
    using cs(3) parallel_case_range(1) [OF pc] sint64_bounds(2) [of "hi - lo"]
    by linarith
  from sint_local_end_wrapped(2) [OF _ this s0(2)] ov e
  show ?thesis
    by (simp add: word_sless_alt)
qed

text \<open>
  Together: with \<open>N\<close> the number of tasks and no sum leaving the 64-bit range, the
  bounds \<open>b 0 = begin < b 1 < \<dots> < b N = end\<close> are the starts of the tasks followed
  by \<open>end\<close>, and task \<open>i\<close> is given \<open>[b i, b (i + 1))\<close>. The range has that much room
  whenever \<open>end + (end - begin)\<close> does not exceed \<open>2^63\<close>.
\<close>

lemma of_nat_below:
  fixes n :: "64 word"
  assumes "i < unat n"
  shows "unat (of_nat i :: 64 word) = i" and "(of_nat i :: 64 word) < n"
proof -
  have "unat n < 2 ^ LENGTH(64)"
    by (rule unsigned_less)
  with assms have "i < 2 ^ LENGTH(64)" by simp
  then show u: "unat (of_nat i :: 64 word) = i"
    by (simp add: unat_of_nat)
  show "(of_nat i :: 64 word) < n"
    using assms by (simp add: word_less_nat_alt u)
qed

lemma chunk_boundaries:
  assumes pc: "parallel_case t lo hi g" and c: "c = chunk_size t lo hi g"
    and no: "sint lo + uint (num_tasks lo hi c) * uint c < 9223372036854775808"
    and b: "\<And>i. b i = (if i < unat (num_tasks lo hi c) then local_start lo c (of_nat i) else hi)"
    and i: "i < unat (num_tasks lo hi c)"
  shows "local_start lo c (of_nat i) = b i"
    and "local_end hi c (local_start lo c (of_nat i)) = b (Suc i)"
    and "sint (b i) < sint (b (Suc i))"
proof -
  let ?n = "num_tasks lo hi c"
  let ?k = "of_nat i :: 64 word"
  note k = of_nat_below [OF i]
  show bi: "local_start lo c ?k = b i"
    using i by (simp add: b)
  have k1: "?k + 1 = of_nat (Suc i)" by simp
  have "local_end hi c (local_start lo c ?k) = b (Suc i) \<and> local_start lo c ?k <s b (Suc i)"
  proof (cases "Suc i < unat ?n")
    case True
    then have "?k + 1 < ?n"
      unfolding k1 by (rule of_nat_below(2))
    moreover have "b (Suc i) = local_start lo c (?k + 1)"
      using True by (simp add: b add.commute)
    ultimately show ?thesis
      using inner_chunk_end [OF pc c k(2)] by simp
  next
    case False
    with i have e: "Suc i = unat ?n" by simp
    have "?k + 1 = ?n"
      unfolding k1 e by simp
    from last_chunk_end [OF pc c this no] e show ?thesis
      by (simp add: b)
  qed
  then show "local_end hi c (local_start lo c ?k) = b (Suc i)"
    and "sint (b i) < sint (b (Suc i))"
    by (simp_all add: bi word_sless_alt)
qed

lemma chunks_fit:
  assumes pc: "parallel_case t lo hi g" and c: "c = chunk_size t lo hi g"
    and room: "2 * sint hi - sint lo \<le> 9223372036854775808"
  shows "sint lo + uint (num_tasks lo hi c) * uint c < 9223372036854775808"
proof -
  note n = uint_num_tasks [OF pc c]
  note cs = uint_chunk_size [OF pc, folded c]
  define A where "A = (uint (num_tasks lo hi c) - 1) * uint c"
  define B where "B = uint (num_tasks lo hi c) * uint c"
  have "B = A + uint c"
    by (simp add: A_def B_def algebra_simps)
  moreover have "A < sint hi - sint lo"
    using n(3) by (simp add: A_def)
  ultimately have "B < (sint hi - sint lo) + (sint hi - sint lo)"
    using cs(3) by linarith
  moreover have "sint hi + sint hi - sint lo \<le> 9223372036854775808"
    using room by simp
  ultimately have "sint lo + B < 9223372036854775808"
    by linarith
  then show ?thesis by (simp add: B_def)
qed

subsection \<open>The last chunk at the upper edge of the index type\<close>

text \<open>
  Claim C1. For a call with \<open>begin < end\<close>, \<open>0 \<le> grain_size \<le> end - begin\<close>, the
  chunk size is \<open>max(grain_size, ceil((end - begin) / thread_count))\<close>, the number of
  tasks is \<open>ceil((end - begin) / chunk_size)\<close> (both shown above, \<open>uint_chunk_size\<close>,
  \<open>uint_num_tasks\<close>, \<open>divup_ceiling\<close>), and chunk \<open>k\<close> is to cover exactly
  \<open>[begin + k * chunk_size, min(end, begin + (k + 1) * chunk_size))\<close>, the chunks
  partitioning \<open>[begin, end)\<close>. The starts are as claimed, and so are the ends as
  long as \<open>begin + num_tasks * chunk_size\<close> is an \<^verbatim>\<open>int64_t\<close> (\<open>chunk_boundaries\<close>).
  Otherwise the code does otherwise: the end of the last chunk is computed as
  \<^verbatim>\<open>std::min(end, (int64_t)(chunk_size + local_start))\<close>, and the sum wraps. With two
  threads, \<open>begin = 2^63 - 4\<close>, \<open>end = 2^63 - 1\<close> and grain size \<open>1\<close> the chunk size is
  \<open>2\<close>, there are two tasks, and the body of task \<open>1\<close> is invoked with the bounds
  \<open>(2^63 - 2, - 2^63)\<close> where the claim has \<open>(2^63 - 2, 2^63 - 1)\<close>; the call returns
  normally, and the index \<open>2^63 - 2\<close> belongs to no chunk.
\<close>

theorem parallel_for_upper_edge:
  "parallel_case 2 0x7FFFFFFFFFFFFFFC 0x7FFFFFFFFFFFFFFF 1
   \<and> chunk_size 2 0x7FFFFFFFFFFFFFFC 0x7FFFFFFFFFFFFFFF 1 = 2
   \<and> num_tasks 0x7FFFFFFFFFFFFFFC 0x7FFFFFFFFFFFFFFF 2 = 2
   \<and> map (\<lambda>c. (call_task c, sint (call_start c), sint (call_end c)))
         (calls (snd (parallel_for 2 (worker_first @ [Caller])
            \<lparr>in_parallel_region = False, thread_num = None\<rparr>
            [\<lparr>in_parallel_region = False, thread_num = None\<rparr>]
            0x7FFFFFFFFFFFFFFC 0x7FFFFFFFFFFFFFFF 1 (\<lambda>_ _. Inr () :: unit + unit))))
       = [(Some 1, 9223372036854775806, - 9223372036854775808),
          (Some 0, 9223372036854775804, 9223372036854775806)]
   \<and> fst (parallel_for 2 (worker_first @ [Caller])
            \<lparr>in_parallel_region = False, thread_num = None\<rparr>
            [\<lparr>in_parallel_region = False, thread_num = None\<rparr>]
            0x7FFFFFFFFFFFFFFC 0x7FFFFFFFFFFFFFFF 1 (\<lambda>_ _. Inr () :: unit + unit))
       = Some (Inr ())
   \<and> min (sint (0x7FFFFFFFFFFFFFFF :: int64_t)) (sint (0x7FFFFFFFFFFFFFFC :: int64_t) + 2 * 2)
       = 9223372036854775807"
  by code_simp

text \<open>
  Claim C10. In the parallel branch every dispatched task \<open>1 \<le> task_id < num_tasks\<close>
  starts before \<open>end\<close>, so that the branch that completes a future without
  submitting work is never taken (both shown above for every call and every
  schedule, \<open>sint_local_start\<close> and \<open>reachable_no_fallback\<close>), and every dispatched chunk
  is to be non-empty. The code does otherwise for the last chunk when
  \<open>begin + num_tasks * chunk_size\<close> exceeds the largest \<^verbatim>\<open>int64_t\<close>
  (\<open>last_chunk_end_wrapped\<close>): with two threads, \<open>begin = 2^63 - 4\<close>, \<open>end = 2^63 - 1\<close>
  and grain size \<open>1\<close>, task \<open>1\<close> is dispatched, its start is before \<open>end\<close>, and the
  worker invokes the body with an end that lies before the start.
\<close>

theorem dispatched_chunk_empty:
  "(let lo = 0x7FFFFFFFFFFFFFFC; hi = 0x7FFFFFFFFFFFFFFF;
        c = chunk_size 2 lo hi 1; n = num_tasks lo hi c
    in parallel_case 2 lo hi 1 \<and> (1 :: size_t) < n
       \<and> local_start lo c 1 <s hi
       \<and> local_end hi c (local_start lo c 1) <s local_start lo c 1
       \<and> map (\<lambda>c. (call_thread c, call_task c, call_end c <s call_start c))
            (calls (snd (parallel_reduce 2 caller_first
              \<lparr>in_parallel_region = False, thread_num = None\<rparr>
              [\<lparr>in_parallel_region = False, thread_num = None\<rparr>]
              (0 :: int) lo hi 1 0
              (\<lambda>s t e. Inr (seq_fold (+) (\<lambda>_. 1) s t e) :: unit + int) (+))))
          = [(None, Some 0, False), (Some 0, Some 1, True)])"
  by code_simp

section \<open>The value of a reduction\<close>

subsection \<open>The results buffer along a run\<close>

lemma results_inv_quiet:
  assumes "results_inv L s" and "quiet s s'"
  shows "results_inv L s'"
  using assms by (simp add: results_inv_def quiet_def same_shared_def)

lemma results_inv_same:
  assumes inv: "results_inv L s" and p: "progress s' = (progress s)(k := p)"
    and r: "results s' = results s"
    and b: "past_body p \<Longrightarrow> past_body (progress s k) \<or> (\<exists>e. body_of L k = Inl e)"
  shows "results_inv L s'"
  unfolding results_inv_def
proof (intro conjI allI impI)
  show "length (results s') = unat (l_num_tasks L)"
    using inv r by (simp add: results_inv_def)
next
  fix k' v
  assume a: "past_body (progress s' k') \<and> body_of L k' = Inr v"
  have "past_body (progress s k')"
  proof (cases "k' = k")
    case True
    with a p b show ?thesis by auto
  next
    case False
    with a p show ?thesis by simp
  qed
  with a inv r show "results s' ! unat k' = v"
    by (simp add: results_inv_def)
qed

lemma results_inv_move:
  assumes st: "l_store L = (\<lambda>k v rs. rs[unat k := v])"
    and inv: "results_inv L s" and k: "k < l_num_tasks L" and mv: "task_move L k s s'"
  shows "results_inv L s'"
  using mv
proof (cases rule: task_move.cases)
  case (tm_begin c)
  then show ?thesis
    by (intro results_inv_same [OF inv, of _ k "At Enter"]) (simp_all add: moved_def same_shared_def)
next
  case (tm_enter c)
  then show ?thesis
    by (intro results_inv_same [OF inv, of _ k "At Body"]) (simp_all add: moved_def same_shared_def)
next
  case (tm_return c v who)
  have len: "length (results s) = unat (l_num_tasks L)"
    using inv by (simp add: results_inv_def)
  have kl: "unat k < length (results s)"
    using k len by (simp add: word_less_nat_alt)
  have r: "results s' = (results s)[unat k := v]"
    using tm_return(7) st by simp
  have p: "progress s' = (progress s)(k := At Leave)"
    using tm_return(4) by (simp add: moved_def)
  show ?thesis
    unfolding results_inv_def
  proof (intro conjI allI impI)
    show "length (results s') = unat (l_num_tasks L)"
      using len r by simp
  next
    fix k' v'
    assume a: "past_body (progress s' k') \<and> body_of L k' = Inr v'"
    show "results s' ! unat k' = v'"
    proof (cases "k' = k")
      case True
      with a tm_return(3) have "v' = v" by simp
      with True r kl show ?thesis by simp
    next
      case False
      then have "unat k' \<noteq> unat k"
        by (simp add: word_unat_eq_iff)
      moreover from False a p have "past_body (progress s k')" by simp
      with a inv have "results s ! unat k' = v'"
        by (simp add: results_inv_def)
      ultimately show ?thesis
        using r by simp
    qed
  qed
next
  case (tm_throw c e who)
  then show ?thesis
    by (intro results_inv_same [OF inv, of _ k "At (Catch e)"]) (simp_all add: moved_def)
next
  case (tm_lose e c)
  then show ?thesis
    by (intro results_inv_same [OF inv, of _ k "At Leave"]) (simp_all add: moved_def)
next
  case (tm_win e c)
  then show ?thesis
    by (intro results_inv_same [OF inv, of _ k "At (Store e)"]) (simp_all add: moved_def)
next
  case (tm_store e c)
  then show ?thesis
    by (intro results_inv_same [OF inv, of _ k "At Leave"]) (simp_all add: moved_def)
next
  case (tm_leave c)
  then show ?thesis
    by (intro results_inv_same [OF inv, of _ k "At Return"]) (simp_all add: moved_def same_shared_def)
next
  case tm_end
  then show ?thesis
    by (intro results_inv_same [OF inv, of _ k Ended]) (simp_all add: moved_def same_shared_def)
qed

lemma results_inv_run:
  assumes ok: "plan_ok L" and st: "l_store L = (\<lambda>k v rs. rs[unat k := v])"
  shows "results_inv L (run L sched (forked ctx wctx (replicate (unat (l_num_tasks L)) dflt)))"
proof (rule run_invariant [where P = "results_inv L" and W = "length wctx", OF ok])
  show "structure_inv L (length wctx) (forked ctx wctx (replicate (unat (l_num_tasks L)) dflt))"
    by (rule structure_inv_forked [OF ok])
  show "results_inv L (forked ctx wctx (replicate (unat (l_num_tasks L)) dflt))"
    by (simp add: results_inv_def) (simp add: forked_def before_call_def)
next
  fix s s' :: "('a, 'b) engine"
  assume "results_inv L s" and "quiet s s'"
  then show "results_inv L s'" by (rule results_inv_quiet)
next
  fix s s' :: "('a, 'b) engine" and k
  assume "results_inv L s" and "k < l_num_tasks L" and "task_move L k s s'"
  then show "results_inv L s'" by (rule results_inv_move [OF st])
qed

subsection \<open>Folding chunk by chunk\<close>

text \<open>
  For an associative combiner with right identity \<open>e\<close>, the fold over a range is
  the combination of the folds over its two parts, and so the left fold of the
  folds over consecutive chunks is the fold over their union.
\<close>

lemma foldl_assoc:
  assumes assoc: "\<And>a b c. sf (sf a b) c = sf a (sf b c)"
  shows "foldl (\<lambda>acc i. sf acc (elt i)) (sf a b) xs = sf a (foldl (\<lambda>acc i. sf acc (elt i)) b xs)"
  by (induction xs arbitrary: b) (simp_all add: assoc)

lemma seq_fold_empty: "sint t \<le> sint s \<Longrightarrow> seq_fold sf elt s t e = e"
  by (simp add: seq_fold_def)

lemma seq_fold_split:
  assumes assoc: "\<And>a b c. sf (sf a b) c = sf a (sf b c)" and ident: "\<And>a. sf a e = a"
    and "sint s \<le> sint m" and "sint m \<le> sint t"
  shows "sf (seq_fold sf elt s m e) (seq_fold sf elt m t e) = seq_fold sf elt s t e"
proof (cases "sint m = sint t")
  case True
  then have "m = t" by (rule signed_word_eqI)
  then show ?thesis
    by (simp add: seq_fold_empty ident)
next
  case False
  with assms(4) have "sint m \<le> sint t - 1" by simp
  from upto_split1 [OF assms(3) this]
  have sp: "[sint s .. sint t - 1] = [sint s .. sint m - 1] @ [sint m .. sint t - 1]" .
  let ?g = "\<lambda>acc i. sf acc (elt i)"
  have "seq_fold sf elt s t e = foldl ?g (sf (seq_fold sf elt s m e) e) [sint m .. sint t - 1]"
    by (simp add: seq_fold_def sp ident)
  also have "\<dots> = sf (seq_fold sf elt s m e) (foldl ?g e [sint m .. sint t - 1])"
    by (rule foldl_assoc [OF assoc])
  finally show ?thesis
    by (simp add: seq_fold_def)
qed

lemma fold_chunks:
  fixes b :: "nat \<Rightarrow> int64_t"
  assumes assoc: "\<And>a b c. sf (sf a b) c = sf a (sf b c)" and ident: "\<And>a. sf a e = a"
    and mono: "\<And>i. i < N \<Longrightarrow> sint (b i) \<le> sint (b (Suc i))"
  shows "foldl sf e (map (\<lambda>i. seq_fold sf elt (b i) (b (Suc i)) e) [0 ..< N])
         = seq_fold sf elt (b 0) (b N) e"
    and "sint (b 0) \<le> sint (b N)"
  using mono
proof (induction N)
  case 0
  {
    case 1
    show ?case by (simp add: seq_fold_empty)
  next
    case 2
    show ?case by simp
  }
next
  case (Suc N)
  {
    case 1
    have le: "sint (b 0) \<le> sint (b N)"
      using Suc.IH(2) 1 by simp
    have "foldl sf e (map (\<lambda>i. seq_fold sf elt (b i) (b (Suc i)) e) [0 ..< N])
          = seq_fold sf elt (b 0) (b N) e"
      using Suc.IH(1) 1 by simp
    then show ?case
      using seq_fold_split [OF assoc ident le 1 [of N], of elt] by simp
  next
    case 2
    have "sint (b 0) \<le> sint (b N)"
      using Suc.IH(2) 2 by simp
    with 2 [of N] show ?case by simp
  }
qed

subsection \<open>The reduction where the chunk arithmetic does not wrap\<close>

text \<open>
  When \<open>begin + num_tasks * chunk_size\<close> is an \<^verbatim>\<open>int64_t\<close>, the chunk function is the
  sequential fold over its range and the combiner is associative with right
  identity \<open>e\<close>, then every outcome of \<^verbatim>\<open>parallel_reduce\<close> is the sequential fold over
  \<open>[begin, end)\<close>, under every schedule, thread count and grain size, and every
  schedule can be continued to that outcome when the pool has a worker.
  Commutativity is not needed: the partial results are combined in the order of
  the task ids.
\<close>

lemma body_of_reduce_locals:
  "body_of (reduce_locals t lo hi g e f) k =
     f (local_start lo (chunk_size t lo hi g) k)
       (local_end hi (chunk_size t lo hi g) (local_start lo (chunk_size t lo hi g) k)) e"
  by (simp add: body_of_def reduce_locals_def)

lemma parallel_reduce_fold:
  assumes pc: "parallel_case t lo hi g" and ctx: "\<not> in_parallel_region ctx"
    and no: "sint lo + uint (num_tasks lo hi (chunk_size t lo hi g)) * uint (chunk_size t lo hi g)
             < 9223372036854775808"
    and assoc: "\<And>a b c. sf (sf a b) c = sf a (sf b c)" and ident: "\<And>a. sf a e = a"
    and f: "\<And>s t. f s t e = Inr (seq_fold sf elt s t e)"
    and out: "fst (parallel_reduce t sched ctx wctx dflt lo hi g e f sf) = Some out"
  shows "out = Inr (seq_fold sf elt lo hi e)"
proof -
  define c where "c = chunk_size t lo hi g"
  define n where "n = num_tasks lo hi c"
  define L where "L = reduce_locals t lo hi g e f"
  define s where "s = run L sched (forked ctx wctx (replicate (unat n) dflt))"
  define b where "b i = (if i < unat n then local_start lo c (of_nat i) else hi)" for i
  have ok: "plan_ok L"
    unfolding L_def by (rule plan_ok_reduce_locals [OF pc])
  have Ln: "l_num_tasks L = n" and Ls: "l_store L = (\<lambda>k v rs. rs[unat k := v])"
    by (simp_all add: L_def n_def c_def reduce_locals_def)
  have forks: "fst (parallel_reduce t sched ctx wctx dflt lo hi g e f sf) =
      (if caller_pc s = Joined then
         Some (case eptr s of Some x \<Rightarrow> Inl (Thrown x) | None \<Rightarrow> Inr (foldl sf e (results s)))
       else None)"
    unfolding s_def L_def n_def c_def by (simp add: parallel_reduce_forks [OF pc ctx])
  with out have j: "caller_pc s = Joined"
    by (simp split: if_splits)
  note j' = j [unfolded s_def]
  have body: "body_of L k = Inr (seq_fold sf elt (local_start lo c k)
                (local_end hi c (local_start lo c k)) e)" for k
    by (simp add: L_def body_of_reduce_locals f c_def)
  have "set (claimed s) = {}"
    using joined_claimed(2) [OF ok j'] by (simp add: s_def body)
  then have "claimed s = []" by simp
  with joined_eptr [OF ok j'] have ep: "eptr s = None"
    by (simp add: s_def)
  have ri: "results_inv L s"
    using results_inv_run [OF ok Ls, of sched ctx wctx dflt] by (simp add: s_def Ln)
  have st: "structure_inv L (length wctx) s"
    unfolding s_def by (rule reachable_facts(1) [OF ok])
  have n1: "0 < unat n"
    using ok by (simp add: plan_ok_def Ln word_le_nat_alt)
  note cb = chunk_boundaries [OF pc c_def no [folded c_def], of b, unfolded n_def [symmetric], OF b_def]
  have res: "results s = map (\<lambda>i. seq_fold sf elt (b i) (b (Suc i)) e) [0 ..< unat n]"
  proof (rule nth_equalityI)
    show "length (results s) = length (map (\<lambda>i. seq_fold sf elt (b i) (b (Suc i)) e) [0 ..< unat n])"
      using ri by (simp add: results_inv_def Ln)
  next
    fix i
    assume "i < length (results s)"
    with ri have i: "i < unat n"
      by (simp add: results_inv_def Ln)
    note k = of_nat_below [OF i]
    have "progress s (of_nat i) = Ended"
      using progress_joined [OF ok st j, of "of_nat i"] k(2) by (simp add: Ln)
    then have "past_body (progress s (of_nat i))" by simp
    with ri body [of "of_nat i"] have "results s ! unat (of_nat i :: 64 word)
        = seq_fold sf elt (local_start lo c (of_nat i))
            (local_end hi c (local_start lo c (of_nat i))) e"
      unfolding results_inv_def by blast
    then show "results s ! i = map (\<lambda>i. seq_fold sf elt (b i) (b (Suc i)) e) [0 ..< unat n] ! i"
      using i cb(2) [OF i] by (simp add: k(1) cb(1) [OF i])
  qed
  have "foldl sf e (results s) = seq_fold sf elt (b 0) (b (unat n)) e"
    unfolding res
  proof (rule fold_chunks(1) [OF assoc ident])
    fix i
    assume "i < unat n"
    from cb(3) [OF this] show "sint (b i) \<le> sint (b (Suc i))" by simp
  qed
  also have "b 0 = lo" using n1 by (simp add: b_def)
  also have "b (unat n) = hi" by (simp add: b_def)
  finally have "foldl sf e (results s) = seq_fold sf elt lo hi e" .
  with out forks j ep show ?thesis
    by simp
qed

lemma parallel_reduce_is_fold:
  assumes t: "0 < t" and r: "lo <s hi" and g: "0 \<le>s g"
    and no: "sint lo + uint (num_tasks lo hi (chunk_size t lo hi g)) * uint (chunk_size t lo hi g)
             < 9223372036854775808"
    and assoc: "\<And>a b c. sf (sf a b) c = sf a (sf b c)" and ident: "\<And>a. sf a e = a"
    and f: "\<And>s t. f s t e = Inr (seq_fold sf elt s t e)"
  shows "fst (parallel_reduce t sched ctx wctx dflt lo hi g e f sf) = Some out
           \<Longrightarrow> out = Inr (seq_fold sf elt lo hi e)"
    and "wctx \<noteq> [] \<Longrightarrow>
           \<exists>sched'. fst (parallel_reduce t (sched @ sched') ctx wctx dflt lo hi g e f sf)
             = Some (Inr (seq_fold sf elt lo hi e))"
proof -
  have res: "out = Inr (seq_fold sf elt lo hi e)"
    if "fst (parallel_reduce t sched ctx wctx dflt lo hi g e f sf) = Some out" for sched out
  proof (cases "g \<le>s hi - lo \<and> \<not> in_parallel_region ctx")
    case True
    then have pc: "parallel_case t lo hi g"
      using t r g by (intro parallel_caseI) simp_all
    from True have ctx: "\<not> in_parallel_region ctx" by simp
    show ?thesis
      by (rule parallel_reduce_fold [OF pc ctx no assoc ident f that])
  next
    case False
    from that show ?thesis
      by (simp add: parallel_reduce_direct [OF r g False] f)
  qed
  show "fst (parallel_reduce t sched ctx wctx dflt lo hi g e f sf) = Some out
           \<Longrightarrow> out = Inr (seq_fold sf elt lo hi e)"
    by (rule res)
  show "\<exists>sched'. fst (parallel_reduce t (sched @ sched') ctx wctx dflt lo hi g e f sf)
             = Some (Inr (seq_fold sf elt lo hi e))" if W: "wctx \<noteq> []"
  proof (cases "g \<le>s hi - lo \<and> \<not> in_parallel_region ctx")
    case True
    then have pc: "parallel_case t lo hi g"
      using t r g by (intro parallel_caseI) simp_all
    from True have ctx: "\<not> in_parallel_region ctx" by simp
    let ?L = "reduce_locals t lo hi g e f"
    let ?rs = "replicate (unat (num_tasks lo hi (chunk_size t lo hi g))) dflt"
    from can_always_join [OF plan_ok_reduce_locals [OF pc] W, of e f sched ctx ?rs]
    obtain sched' where j: "caller_pc (run ?L (sched @ sched') (forked ctx wctx ?rs)) = Joined"
      by blast
    then obtain out where o: "fst (parallel_reduce t (sched @ sched') ctx wctx dflt lo hi g e f sf) = Some out"
      by (simp add: parallel_reduce_forks [OF pc ctx])
    from res [OF o] o show ?thesis by blast
  next
    case False
    have "fst (parallel_reduce t (sched @ []) ctx wctx dflt lo hi g e f sf)
            = Some (Inr (seq_fold sf elt lo hi e))"
      by (simp add: parallel_reduce_direct [OF r g False] f)
    then show ?thesis by blast
  qed
qed

text \<open>
  The sum of the indices below \<open>1000000\<close> with grain size \<open>1000\<close>: whatever the
  thread count and the schedule, the outcome is \<open>499999500000\<close>.
\<close>

lemma foldl_add_sum_list: "foldl (\<lambda>acc i. acc + i) a xs = a + sum_list (xs :: int list)"
  by (induction xs arbitrary: a) simp_all

lemma seq_fold_sum:
  assumes "0 \<le> sint t"
  shows "seq_fold (+) (\<lambda>i. i) 0 t 0 = sint t * (sint t - 1) div 2"
proof -
  have "sum_list [0 .. sint t - 1] = \<Sum> {0 .. sint t - 1}"
    using sum_list_distinct_conv_sum_set [of "[0 .. sint t - 1]" "\<lambda>i. i"] by simp
  also have "\<dots> = sint t * (sint t - 1) div 2"
  proof (cases "sint t = 0")
    case True
    then show ?thesis by simp
  next
    case False
    with assms have "0 \<le> sint t - 1" by simp
    from Sum_Icc_int [OF this] show ?thesis by (simp add: algebra_simps)
  qed
  finally show ?thesis
    by (simp add: seq_fold_def foldl_add_sum_list)
qed

lemma parallel_reduce_sum_scenario:
  assumes "0 < t"
    and "fst (parallel_reduce t sched ctx wctx dflt 0 1000000 1000 0
                (\<lambda>s t e. Inr (seq_fold (+) (\<lambda>i. i) s t e) :: 'e + int) (+)) = Some out"
  shows "out = Inr 499999500000"
proof -
  have r: "(0 :: int64_t) <s 1000000" and g: "(0 :: int64_t) \<le>s 1000"
    by (simp_all add: word_sless_alt word_sle_eq)
  have no: "sint (0 :: int64_t) + uint (num_tasks 0 1000000 (chunk_size t 0 1000000 1000))
              * uint (chunk_size t 0 1000000 1000) < 9223372036854775808"
  proof (cases "parallel_case t 0 1000000 1000")
    case True
    show ?thesis
      by (rule chunks_fit [OF True refl]) simp
  next
    case False
    have "(1000 :: int64_t) \<le>s 1000000 - 0"
      by (simp add: word_sle_eq)
    with False assms(1) r g show ?thesis
      by (simp add: parallel_case_def)
  qed
  have "out = Inr (seq_fold (+) (\<lambda>i. i) 0 1000000 (0 :: int))"
    by (rule parallel_reduce_is_fold(1) [OF assms(1) r g no _ _ _ assms(2)]) simp_all
  also have "seq_fold (+) (\<lambda>i. i) 0 1000000 (0 :: int) = 499999500000"
    by (subst seq_fold_sum) simp_all
  finally show ?thesis .
qed

subsection \<open>The reduction at the upper edge of the index type\<close>

text \<open>
  Claim C2. For a combiner that is associative and commutative with the identity
  \<open>e\<close> and a chunk function that is the sequential fold over its range,
  \<^verbatim>\<open>parallel_reduce\<close> is to return the sequential fold over \<open>[begin, end)\<close>, for every
  \<open>begin < end\<close>, grain size and thread count. That holds where the chunk arithmetic
  does not wrap (shown above), and the code does otherwise at the upper edge of
  \<^verbatim>\<open>int64_t\<close>: counting the indices of \<open>[2^63 - 4, 2^63 - 1)\<close> with two threads and
  grain size \<open>1\<close> (chunk function: the fold of \<open>+\<close> over the constant \<open>1\<close>, combiner
  \<open>+\<close>, identity \<open>0\<close>) returns \<open>2\<close>, where the sequential fold is \<open>3\<close>: the last
  chunk is handed the bounds \<open>(2^63 - 2, - 2^63)\<close>, an empty range.
\<close>

theorem parallel_reduce_upper_edge:
  "fst (parallel_reduce 2 (caller_first @ [Caller])
          \<lparr>in_parallel_region = False, thread_num = None\<rparr>
          [\<lparr>in_parallel_region = False, thread_num = None\<rparr>]
          (0 :: int) 0x7FFFFFFFFFFFFFFC 0x7FFFFFFFFFFFFFFF 1 0
          (\<lambda>s t e. Inr (seq_fold (+) (\<lambda>_. 1) s t e) :: unit + int) (+))
     = Some (Inr 2)
   \<and> seq_fold (+) (\<lambda>_. 1) 0x7FFFFFFFFFFFFFFC 0x7FFFFFFFFFFFFFFF (0 :: int) = 3"
  by code_simp

end
